theory Spec2Isabelle
  imports Main
begin

section \<open>Strings, numbers and the built-ins the script uses\<close>

text \<open>
  The program is the single script \<^verbatim>\<open>src/main.mjs\<close>. JavaScript strings are modelled
  as \<^typ>\<open>string\<close>. The numbers of the script are the literal \<^verbatim>\<open>5\<close> and what
  \<^verbatim>\<open>Number.parseInt\<close> returns: \<open>NaN\<close>, an infinity, or a number whose value is an integer
  (negative zero compares and prints as zero, and is read as \<open>Num 0\<close>).
\<close>

abbreviation DQ :: string where "DQ \<equiv> [CHR 0x22]"
abbreviation NL :: string where "NL \<equiv> [CHR 0x0A]"
abbreviation TAB :: string where "TAB \<equiv> [CHR 0x09]"

datatype number = NaN | NegInfinity | Num int | Infinity

text \<open>
  Two built-ins of the language are not written out: \<^verbatim>\<open>Number.parseInt(_, 10)\<close>, and the
  text a number has inside a template literal. They are parameters of the model, and
  every statement below holds whatever they are.
\<close>

record builtins =
  Number_parseInt :: "string \<Rightarrow> number"
  ToString :: "number \<Rightarrow> string"

text \<open>\<^verbatim>\<open>s.split(",")\<close>: every separator closes a segment, empty segments are kept.\<close>

fun split_from :: "char \<Rightarrow> string \<Rightarrow> string \<Rightarrow> string list" where
  "split_from sep seg [] = [rev seg]"
| "split_from sep seg (c # cs) =
     (if c = sep then rev seg # split_from sep [] cs else split_from sep (c # seg) cs)"

definition split :: "char \<Rightarrow> string \<Rightarrow> string list" where
  "split sep s = split_from sep [] s"

text \<open>\<^verbatim>\<open>xs.join(sep)\<close>.\<close>

fun join :: "string \<Rightarrow> string list \<Rightarrow> string" where
  "join sep [] = []"
| "join sep [x] = x"
| "join sep (x # y # ys) = x @ sep @ join sep (y # ys)"

text \<open>Truthiness of \<^verbatim>\<open>undefined\<close> (\<open>None\<close>) or a string: only a non-empty string is truthy.\<close>

fun truthy :: "string option \<Rightarrow> bool" where
  "truthy None = False"
| "truthy (Some s) = (s \<noteq> [])"

fun Number_isNaN :: "number \<Rightarrow> bool" where
  "Number_isNaN NaN = True"
| "Number_isNaN x = False"

text \<open>\<^verbatim>\<open>x <= 0\<close>: every comparison with \<open>NaN\<close> is false.\<close>

fun le_zero :: "number \<Rightarrow> bool" where
  "le_zero NaN = False"
| "le_zero NegInfinity = True"
| "le_zero (Num i) = (i \<le> 0)"
| "le_zero Infinity = False"

section \<open>Collaborators, effects and data\<close>

text \<open>
  The script talks to four things it does not implement: \<^verbatim>\<open>generateObject\<close> (under three
  schemas), \<^verbatim>\<open>inquirer.prompt\<close>, \<^verbatim>\<open>fs.writeFileSync\<close> and the console. Each
  \<^verbatim>\<open>generateObject\<close> schema fixes the shape of the object returned, so each is a function
  to the field the caller reads. A collaborator answers the \<open>i\<close>-th request of its kind,
  given what the request carries, with a value or with the error it throws; nothing is
  assumed about the answers (not that a repeated request is answered alike, not that the
  phrases are as many as asked for, not that the chosen phrases are among the choices).
  The calls of the per-word loop are awaited one by one, and each is taken to return or to
  throw; the translation requests are all in flight together, and the order in which they
  complete is a parameter of the run.
\<close>

datatype error = Error string

datatype schema = PhrasesSchema | TranslationSchema | MeaningSchema

record collaborators =
  generateObject_phrases :: "nat \<Rightarrow> string \<Rightarrow> error + string list"
  generateObject_translation :: "nat \<Rightarrow> string \<Rightarrow> error + string"
  generateObject_meaning :: "nat \<Rightarrow> string \<Rightarrow> error + string"
  inquirer_prompt :: "nat \<Rightarrow> string \<Rightarrow> string list \<Rightarrow> error + string list"
  writeFileSync :: "string \<Rightarrow> string \<Rightarrow> error option"

text \<open>What the script does to the outside, in the order it does it.\<close>

datatype event =
    GenerateObject schema string
  | Prompt string "string list"
  | ConsoleLog string
  | ConsoleError string
  | ConsoleErrorWith string error
  | WriteFileSync string string

text \<open>An entry of \<^verbatim>\<open>selectedPhrases\<close> and an entry of \<^verbatim>\<open>translations\<close>.\<close>

record pending =
  phrase :: string
  meaning :: string
  word :: string

record pair =
  english :: string
  portuguese :: string
  meaning :: string
  word :: string

text \<open>A promise: not settled, rejected, or fulfilled.\<close>

datatype 'a promise = Pending | Rejected error | Fulfilled 'a

section \<open>The three requests\<close>

text \<open>
  Each returns the call it issues and the answer to it; the template literal of its prompt
  is a definition of its own. (The parameters \<^verbatim>\<open>word\<close> and
  \<^verbatim>\<open>phrase\<close> of the source are \<open>w\<close> and \<open>ph\<close> here: the record fields have the names.)
\<close>

definition phrases_prompt :: "builtins \<Rightarrow> number \<Rightarrow> string \<Rightarrow> string" where
  "phrases_prompt b numPhrases w =
     ''Generate '' @ ToString b numPhrases @
     '' natural, contextually relevant phrases that native English speakers might use in daily life, incorporating the word ''
     @ DQ @ w @ DQ @ '' in a meaningful way.''"

definition generatePhrases ::
  "builtins \<Rightarrow> collaborators \<Rightarrow> nat \<Rightarrow> string \<Rightarrow> number \<Rightarrow> event \<times> (error + string list)" where
  "generatePhrases b c i w numPhrases =
     (let prompt = phrases_prompt b numPhrases w
      in (GenerateObject PhrasesSchema prompt, generateObject_phrases c i prompt))"

definition translation_prompt :: "string \<Rightarrow> string" where
  "translation_prompt ph =
     ''Translate the following phrase into natural, idiomatic Portuguese that a native speaker would use: ''
     @ DQ @ ph @ DQ"

definition translatePhrase ::
  "collaborators \<Rightarrow> nat \<Rightarrow> string \<Rightarrow> event \<times> (error + string)" where
  "translatePhrase c i ph =
     (let prompt = translation_prompt ph
      in (GenerateObject TranslationSchema prompt, generateObject_translation c i prompt))"

definition meaning_prompt :: "string \<Rightarrow> string" where
  "meaning_prompt w = ''Provide the meaning of the word '' @ DQ @ w @ DQ @ '' in English.''"

definition getWordMeaning ::
  "collaborators \<Rightarrow> nat \<Rightarrow> string \<Rightarrow> event \<times> (error + string)" where
  "getWordMeaning c i w =
     (let prompt = meaning_prompt w
      in (GenerateObject MeaningSchema prompt, generateObject_meaning c i prompt))"

section \<open>\<^verbatim>\<open>main\<close>: the per-word loop\<close>

text \<open>
  One pass of the \<^verbatim>\<open>for\<close> loop for the word \<open>w\<close>, the \<open>i\<close>-th of the list: the entries
  it pushes onto \<^verbatim>\<open>selectedPhrases\<close>, or the error an \<^verbatim>\<open>await\<close> throws, and the events up
  to there. The choices of the checkbox are the phrases, in order.
\<close>

definition meaning_log :: "string \<Rightarrow> string \<Rightarrow> string" where
  "meaning_log w m = NL @ ''Meaning of '' @ DQ @ w @ DQ @ '': '' @ m @ NL"

definition checkbox_message :: "string \<Rightarrow> string" where
  "checkbox_message w = ''Choose phrases for the word '' @ DQ @ w @ DQ @ '':''"

definition loop_body ::
  "builtins \<Rightarrow> collaborators \<Rightarrow> number \<Rightarrow> nat \<Rightarrow> string \<Rightarrow> (error + pending list) \<times> event list" where
  "loop_body b c numPhrases i w =
     (case getWordMeaning c i w of
        (callM, Inl e) \<Rightarrow> (Inl e, [callM])
      | (callM, Inr m) \<Rightarrow>
          (let logM = ConsoleLog (meaning_log w m) in
           case generatePhrases b c i w numPhrases of
             (callP, Inl e) \<Rightarrow> (Inl e, [callM, logM, callP])
           | (callP, Inr phrases) \<Rightarrow>
               (let ask = Prompt (checkbox_message w) phrases
                in case inquirer_prompt c i (checkbox_message w) phrases of
                     Inl e \<Rightarrow> (Inl e, [callM, logM, callP, ask])
                   | Inr chosenPhrases \<Rightarrow>
                       (Inr (map (\<lambda>ph. \<lparr>phrase = ph, pending.meaning = m, pending.word = w\<rparr>)
                               chosenPhrases),
                        [callM, logM, callP, ask]))))"

text \<open>
  The loop over the words from the \<open>i\<close>-th on, \<^verbatim>\<open>selectedPhrases\<close> being what was pushed so
  far: the final \<^verbatim>\<open>selectedPhrases\<close>, or the error that left the loop, and the events.
\<close>

fun word_loop ::
  "builtins \<Rightarrow> collaborators \<Rightarrow> number \<Rightarrow> nat \<Rightarrow> string list \<Rightarrow> pending list
     \<Rightarrow> (error + pending list) \<times> event list" where
  "word_loop b c numPhrases i [] selectedPhrases = (Inr selectedPhrases, [])"
| "word_loop b c numPhrases i (w # ws) selectedPhrases =
     (case loop_body b c numPhrases i w of
        (Inl e, evs) \<Rightarrow> (Inl e, evs)
      | (Inr pushed, evs) \<Rightarrow>
          (case word_loop b c numPhrases (Suc i) ws (selectedPhrases @ pushed) of
             (r, evs') \<Rightarrow> (r, evs @ evs')))"

section \<open>\<^verbatim>\<open>main\<close>: the translations\<close>

text \<open>
  The \<^verbatim>\<open>async\<close> arrow function mapped over \<^verbatim>\<open>selectedPhrases\<close>: it is entered for every
  entry in turn, and each entry issues its request before the next is entered. What its
  promise settles to is the pair built from the entry and the translation, or the error.
\<close>

definition translate_entry ::
  "collaborators \<Rightarrow> nat \<Rightarrow> pending \<Rightarrow> event \<times> (error + pair)" where
  "translate_entry c j p =
     (case translatePhrase c j (phrase p) of
        (call, Inl e) \<Rightarrow> (call, Inl e)
      | (call, Inr translation) \<Rightarrow>
          (call, Inr \<lparr>english = phrase p, portuguese = translation,
                      pair.meaning = pending.meaning p, pair.word = pending.word p\<rparr>))"

definition translate_entries ::
  "collaborators \<Rightarrow> pending list \<Rightarrow> (event \<times> (error + pair)) list" where
  "translate_entries c selectedPhrases =
     map (\<lambda>(j, p). translate_entry c j p) (enumerate 0 selectedPhrases)"

text \<open>
  \<^verbatim>\<open>Promise.all\<close> over promises that settle in the order \<open>order\<close> (the indices of the
  promises, as they complete): a fulfilment stores its value at the index of its promise,
  the first rejection rejects the whole, and once every index holds a value the whole is
  fulfilled with the values in index order. A promise that never completes leaves the
  whole pending.
\<close>

fun settle_all :: "(error + 'a) list \<Rightarrow> nat list \<Rightarrow> 'a option list \<Rightarrow> 'a list promise" where
  "settle_all outcomes [] vals =
     (case those vals of None \<Rightarrow> Pending | Some vs \<Rightarrow> Fulfilled vs)"
| "settle_all outcomes (j # order) vals =
     (if j < length outcomes then
        (case outcomes ! j of
           Inl e \<Rightarrow> Rejected e
         | Inr v \<Rightarrow> settle_all outcomes order (vals[j := Some v]))
      else settle_all outcomes order vals)"

definition Promise_all :: "(error + 'a) list \<Rightarrow> nat list \<Rightarrow> 'a list promise" where
  "Promise_all outcomes order = settle_all outcomes order (replicate (length outcomes) None)"

text \<open>The \<^verbatim>\<open>await Promise.all(selectedPhrases.map(...))\<close> of \<^verbatim>\<open>main\<close>.\<close>

definition translations_of :: "collaborators \<Rightarrow> pending list \<Rightarrow> nat list \<Rightarrow> pair list promise" where
  "translations_of c selectedPhrases order =
     Promise_all (map snd (translate_entries c selectedPhrases)) order"

section \<open>\<^verbatim>\<open>main\<close>: the summary and the export\<close>

definition outputContent :: "pair list \<Rightarrow> string" where
  "outputContent translations =
     join (NL @ NL)
       (map (\<lambda>p. ''Meaning: '' @ pair.meaning p @ NL @ ''English: '' @ english p @ NL
                   @ ''Portuguese: '' @ portuguese p) translations)"

definition flashcard_line :: "pair \<Rightarrow> string" where
  "flashcard_line p =
     DQ @ english p @ '' <b><span style='' @ DQ @ ''color: rgb(0, 0, 255);'' @ DQ @ ''>''
     @ pair.word p @ ''</span></b>'' @ DQ @ TAB @ pair.meaning p"

definition flashcardsContent :: "pair list \<Rightarrow> string" where
  "flashcardsContent translations =
     join NL ([''#separator:tab'', ''#html:true'', ''#tags column:3'']
              @ map flashcard_line translations)"

definition main ::
  "builtins \<Rightarrow> collaborators \<Rightarrow> string list \<Rightarrow> number \<Rightarrow> bool \<Rightarrow> nat list \<Rightarrow> unit promise \<times> event list" where
  "main b c ws numPhrases flashcards order =
     (case word_loop b c numPhrases 0 ws [] of
        (Inl e, evs) \<Rightarrow> (Rejected e, evs)
      | (Inr selectedPhrases, evs) \<Rightarrow>
          (let calls = map fst (translate_entries c selectedPhrases)
           in case translations_of c selectedPhrases order of
                Pending \<Rightarrow> (Pending, evs @ calls)
              | Rejected e \<Rightarrow> (Rejected e, evs @ calls)
              | Fulfilled translations \<Rightarrow>
                  (let logs = [ConsoleLog (NL @ ''Final Output:'' @ NL),
                               ConsoleLog (outputContent translations)]
                   in if flashcards then
                        (let content = flashcardsContent translations;
                             write = WriteFileSync ''flashcards.txt'' content
                         in case writeFileSync c ''flashcards.txt'' content of
                              Some e \<Rightarrow> (Rejected e, evs @ calls @ logs @ [write])
                            | None \<Rightarrow>
                                (Fulfilled (),
                                 evs @ calls @ logs @
                                 [write,
                                  ConsoleLog (NL @ ''Flashcards file '' @ DQ @ ''flashcards.txt'' @ DQ
                                              @ '' has been generated.'' @ NL)]))
                      else (Fulfilled (), evs @ calls @ logs))))"

section \<open>The script\<close>

text \<open>
  The parsed arguments (\<^verbatim>\<open>args.w\<close> and \<^verbatim>\<open>args.n\<close> are a string or \<^verbatim>\<open>undefined\<close>,
  \<^verbatim>\<open>args.flashcards\<close> a boolean) and the environment after \<^verbatim>\<open>.env\<close> is loaded.
\<close>

record args =
  args_w :: "string option"
  args_n :: "string option"
  args_flashcards :: bool

type_synonym env = "string \<rightharpoonup> string"

definition model :: string where
  "model = ''deepseek''"

definition words :: "args \<Rightarrow> string list" where
  "words a = (if truthy (args_w a) then split CHR '','' (the (args_w a)) else [])"

definition numPhrases_of :: "builtins \<Rightarrow> args \<Rightarrow> number" where
  "numPhrases_of b a =
     (if truthy (args_n a) then Number_parseInt b (the (args_n a)) else Num 5)"

definition flashcards_of :: "args \<Rightarrow> bool" where
  "flashcards_of a = (args_flashcards a \<or> False)"

text \<open>
  A run: the events in order and the exit status (\<open>None\<close> when the process never gets to
  exit). \<^verbatim>\<open>process.exit(1)\<close> ends the script where it stands; a \<^verbatim>\<open>main\<close> that returns lets
  the process end with status 0.
\<close>

record run =
  trace :: "event list"
  exit_code :: "nat option"

definition program :: "builtins \<Rightarrow> env \<Rightarrow> args \<Rightarrow> collaborators \<Rightarrow> nat list \<Rightarrow> run" where
  "program b env a c order =
     (if (model = ''openai'' \<and> \<not> truthy (env ''OPENAI_API_KEY'')) \<or>
         (model = ''deepseek'' \<and> \<not> truthy (env ''DEEPSEEK_API_KEY''))
      then \<lparr>trace = [ConsoleError (''Please set the ''
                       @ (if model = ''openai'' then ''OPENAI_API_KEY'' else ''DEEPSEEK_API_KEY'')
                       @ '' environment variable.'')],
            exit_code = Some 1\<rparr>
      else if length (words a) = 0
      then \<lparr>trace = [ConsoleError
                       ''No words provided. Please provide a list of words using the -w flag.''],
            exit_code = Some 1\<rparr>
      else if Number_isNaN (numPhrases_of b a) \<or> le_zero (numPhrases_of b a)
      then \<lparr>trace = [ConsoleError ''Please provide a valid number of phrases using the -n flag.''],
            exit_code = Some 1\<rparr>
      else
        (case main b c (words a) (numPhrases_of b a) (flashcards_of a) order of
           (Fulfilled u, evs) \<Rightarrow> \<lparr>trace = evs, exit_code = Some 0\<rparr>
         | (Rejected e, evs) \<Rightarrow>
             \<lparr>trace = evs @ [ConsoleErrorWith ''An error occurred:'' e], exit_code = Some 1\<rparr>
         | (Pending, evs) \<Rightarrow> \<lparr>trace = evs, exit_code = None\<rparr>))"

section \<open>Reading a run\<close>

text \<open>The prompts of the requests made under one schema, in the order they were made.\<close>

fun requests :: "schema \<Rightarrow> event list \<Rightarrow> string list" where
  "requests s [] = []"
| "requests s (GenerateObject s' p # evs) =
     (if s' = s then p # requests s evs else requests s evs)"
| "requests s (ev # evs) = requests s evs"

text \<open>The calls of the per-word loop: a meaning request, a phrases request, a checkbox.\<close>

fun loop_call :: "event \<Rightarrow> bool" where
  "loop_call (GenerateObject s p) = (s = MeaningSchema \<or> s = PhrasesSchema)"
| "loop_call (Prompt msg choices) = True"
| "loop_call ev = False"

text \<open>Any call to a collaborator that answers (the console is not one).\<close>

fun collaborator_call :: "event \<Rightarrow> bool" where
  "collaborator_call (GenerateObject s p) = True"
| "collaborator_call (Prompt msg choices) = True"
| "collaborator_call (WriteFileSync f content) = True"
| "collaborator_call ev = False"

text \<open>Standard output, and the files written with their contents.\<close>

fun stdout :: "event list \<Rightarrow> string list" where
  "stdout [] = []"
| "stdout (ConsoleLog s # evs) = s # stdout evs"
| "stdout (ev # evs) = stdout evs"

fun files_written :: "event list \<Rightarrow> (string \<times> string) list" where
  "files_written [] = []"
| "files_written (WriteFileSync f content # evs) = (f, content) # files_written evs"
| "files_written (ev # evs) = files_written evs"

text \<open>
  A configuration failure: one message on standard error, nothing else, and exit
  status 1.
\<close>

fun is_config_failure :: "run \<Rightarrow> bool" where
  "is_config_failure r =
     (case trace r of [ConsoleError msg] \<Rightarrow> exit_code r = Some 1 | _ \<Rightarrow> False)"

text \<open>
  What the collaborators answer for the \<open>i\<close>-th word \<open>w\<close>, when they answer: its meaning,
  its phrases, and the phrases chosen among them.
\<close>

definition meaning_at :: "collaborators \<Rightarrow> nat \<Rightarrow> string \<Rightarrow> string" where
  "meaning_at c i w = (case generateObject_meaning c i (meaning_prompt w) of
                         Inr m \<Rightarrow> m | Inl e \<Rightarrow> [])"

definition phrases_at :: "builtins \<Rightarrow> collaborators \<Rightarrow> number \<Rightarrow> nat \<Rightarrow> string \<Rightarrow> string list" where
  "phrases_at b c numPhrases i w =
     (case generateObject_phrases c i (phrases_prompt b numPhrases w) of
        Inr ps \<Rightarrow> ps | Inl e \<Rightarrow> [])"

definition selection_at :: "builtins \<Rightarrow> collaborators \<Rightarrow> number \<Rightarrow> nat \<Rightarrow> string \<Rightarrow> string list" where
  "selection_at b c numPhrases i w =
     (case inquirer_prompt c i (checkbox_message w) (phrases_at b c numPhrases i w) of
        Inr chosen \<Rightarrow> chosen | Inl e \<Rightarrow> [])"

text \<open>The three calls of the loop for the \<open>i\<close>-th word, in the order the loop makes them.\<close>

definition calls_for :: "builtins \<Rightarrow> collaborators \<Rightarrow> number \<Rightarrow> nat \<times> string \<Rightarrow> event list" where
  "calls_for b c numPhrases iw =
     (case iw of (i, w) \<Rightarrow>
        [GenerateObject MeaningSchema (meaning_prompt w),
         GenerateObject PhrasesSchema (phrases_prompt b numPhrases w),
         Prompt (checkbox_message w) (phrases_at b c numPhrases i w)])"

text \<open>The entries the loop pushes for the \<open>i\<close>-th word.\<close>

definition entries_for :: "builtins \<Rightarrow> collaborators \<Rightarrow> number \<Rightarrow> nat \<times> string \<Rightarrow> pending list" where
  "entries_for b c numPhrases iw =
     (case iw of (i, w) \<Rightarrow>
        map (\<lambda>ph. \<lparr>phrase = ph, pending.meaning = meaning_at c i w, pending.word = w\<rparr>)
          (selection_at b c numPhrases i w))"

text \<open>Every call of the loop for the \<open>i\<close>-th word is answered with a value.\<close>

definition answered :: "builtins \<Rightarrow> collaborators \<Rightarrow> number \<Rightarrow> nat \<times> string \<Rightarrow> bool" where
  "answered b c numPhrases iw =
     (case iw of (i, w) \<Rightarrow>
        \<not> isl (generateObject_meaning c i (meaning_prompt w)) \<and>
        \<not> isl (generateObject_phrases c i (phrases_prompt b numPhrases w)) \<and>
        \<not> isl (inquirer_prompt c i (checkbox_message w) (phrases_at b c numPhrases i w)))"

text \<open>A result that is a list of at most \<open>count\<close> strings, or an error.\<close>

fun at_most :: "number \<Rightarrow> error + string list \<Rightarrow> bool" where
  "at_most count (Inl e) = True"
| "at_most NaN (Inr ps) = False"
| "at_most NegInfinity (Inr ps) = False"
| "at_most (Num k) (Inr ps) = (int (length ps) \<le> k)"
| "at_most Infinity (Inr ps) = True"

text \<open>The lines of a text.\<close>

definition lines :: "string \<Rightarrow> string list" where
  "lines s = split CHR 0x0A s"

section \<open>Inputs to run the script on\<close>

text \<open>
  The built-ins, tabulated on what the runs below hand them: \<^verbatim>\<open>Number.parseInt("2", 10)\<close>
  is 2, and the numbers 2 and 5 read \<open>2\<close> and \<open>5\<close> in a template literal. No run below
  reaches another entry.
\<close>

definition tabled :: builtins where
  "tabled =
     \<lparr>Number_parseInt = (\<lambda>s. if s = ''2'' then Num 2 else NaN),
      ToString = (\<lambda>x. if x = Num 2 then ''2'' else if x = Num 5 then ''5'' else ''NaN'')\<rparr>"

definition env_with_key :: env where
  "env_with_key = [''DEEPSEEK_API_KEY'' \<mapsto> ''sk-1'']"

definition env_empty_key :: env where
  "env_empty_key = [''DEEPSEEK_API_KEY'' \<mapsto> []]"

definition args_run_jump :: args where
  "args_run_jump = \<lparr>args_w = Some ''run,jump'', args_n = Some ''2'', args_flashcards = True\<rparr>"

definition args_gap :: args where
  "args_gap = \<lparr>args_w = Some ''a,,b'', args_n = None, args_flashcards = False\<rparr>"

text \<open>
  Collaborators that always answer: three phrases whatever the count asked for, the first
  phrase chosen for every word but the second of the list, for which nothing is chosen.
\<close>

definition steady :: collaborators where
  "steady =
     \<lparr>generateObject_phrases = (\<lambda>i p. Inr [''p1'', ''p2'', ''p3'']),
      generateObject_translation = (\<lambda>i p. Inr ''t''),
      generateObject_meaning = (\<lambda>i p. Inr ''m''),
      inquirer_prompt = (\<lambda>i msg choices. Inr (if i = 1 then [] else take 1 choices)),
      writeFileSync = (\<lambda>f content. None)\<rparr>"

text \<open>The same, the first phrase chosen for every word.\<close>

definition eager :: collaborators where
  "eager = steady\<lparr>inquirer_prompt := (\<lambda>i msg choices. Inr (take 1 choices))\<rparr>"

text \<open>The same as \<open>eager\<close>, the translation request of index 1 failing.\<close>

definition flaky :: collaborators where
  "flaky =
     eager\<lparr>generateObject_translation :=
              (\<lambda>i p. if i = 1 then Inl (Error ''timeout'') else Inr ''t'')\<rparr>"

text \<open>The same as \<open>steady\<close>, no meaning request answered.\<close>

definition mute :: collaborators where
  "mute = steady\<lparr>generateObject_meaning := (\<lambda>i p. Inl (Error ''unreachable''))\<rparr>"

text \<open>The same as \<open>steady\<close>, the meaning in two lines.\<close>

definition wordy :: collaborators where
  "wordy = steady\<lparr>generateObject_meaning := (\<lambda>i p. Inr (''m1'' @ NL @ ''m2''))\<rparr>"

section \<open>Lemmas: reading a sequence of events\<close>

lemma requests_append: "requests s (xs @ ys) = requests s xs @ requests s ys"
  by (induction s xs rule: requests.induct) auto

lemma stdout_append: "stdout (xs @ ys) = stdout xs @ stdout ys"
  by (induction xs rule: stdout.induct) auto

lemma files_written_append: "files_written (xs @ ys) = files_written xs @ files_written ys"
  by (induction xs rule: files_written.induct) auto

section \<open>Lemmas: \<open>split\<close> and \<open>join\<close>\<close>

lemma split_from_no_sep:
  "sep \<notin> set x \<Longrightarrow> split_from sep seg (x @ rest) = split_from sep (rev x @ seg) rest"
  by (induction x arbitrary: seg) auto

lemma split_from_not_Nil: "split_from sep seg s \<noteq> []"
  by (induction s arbitrary: seg) auto

lemma length_split_from: "length (split_from sep seg s) = Suc (count_list s sep)"
  by (induction s arbitrary: seg) auto

lemma join_Cons: "ys \<noteq> [] \<Longrightarrow> join sep (x # ys) = x @ sep @ join sep ys"
  by (cases ys) auto

lemma join_split_from: "join [sep] (split_from sep seg s) = rev seg @ s"
  by (induction s arbitrary: seg) (auto simp: join_Cons split_from_not_Nil)

lemma split_join:
  "xs \<noteq> [] \<Longrightarrow> \<forall>x\<in>set xs. sep \<notin> set x \<Longrightarrow> split sep (join [sep] xs) = xs"
proof (induction "[sep]" xs rule: join.induct)
  case 1
  then show ?case by simp
next
  case (2 x)
  then show ?case using split_from_no_sep [of sep x "[]" "[]"] by (simp add: split_def)
next
  case (3 x y ys)
  then have "split sep (join [sep] (y # ys)) = y # ys" by simp
  moreover have "split sep (x @ [sep] @ join [sep] (y # ys)) = x # split sep (join [sep] (y # ys))"
    using 3(3) split_from_no_sep [of sep x "[]"] by (simp add: split_def)
  ultimately show ?case by simp
qed

section \<open>Lemmas: the per-word loop\<close>

lemma loop_body_Inr:
  assumes "loop_body b c n i w = (Inr es, evs)"
  shows "es = entries_for b c n (i, w)"
    and "evs = [GenerateObject MeaningSchema (meaning_prompt w),
                ConsoleLog (meaning_log w (meaning_at c i w)),
                GenerateObject PhrasesSchema (phrases_prompt b n w),
                Prompt (checkbox_message w) (phrases_at b c n i w)]"
  using assms
  by (auto simp: loop_body_def getWordMeaning_def generatePhrases_def entries_for_def
      meaning_at_def phrases_at_def selection_at_def Let_def split: sum.splits)

lemma loop_body_quiet:
  "requests TranslationSchema (snd (loop_body b c n i w)) = []"
  "files_written (snd (loop_body b c n i w)) = []"
  by (auto simp: loop_body_def getWordMeaning_def generatePhrases_def Let_def split: sum.splits)

lemma loop_body_first:
  "take 1 (snd (loop_body b c n i w)) = [GenerateObject MeaningSchema (meaning_prompt w)]"
  by (auto simp: loop_body_def getWordMeaning_def generatePhrases_def Let_def split: sum.splits)

lemma word_loop_Inr:
  "word_loop b c n i ws sel = (Inr sel', evs) \<Longrightarrow>
     sel' = sel @ concat (map (entries_for b c n) (enumerate i ws)) \<and>
     filter loop_call evs = concat (map (calls_for b c n) (enumerate i ws)) \<and>
     requests MeaningSchema evs = map meaning_prompt ws \<and>
     requests PhrasesSchema evs = map (phrases_prompt b n) ws \<and>
     stdout evs = map (\<lambda>iw. meaning_log (snd iw) (meaning_at c (fst iw) (snd iw))) (enumerate i ws)"
proof (induction ws arbitrary: i sel evs)
  case Nil
  then show ?case by simp
next
  case (Cons w ws)
  obtain r0 evs0 where b: "loop_body b c n i w = (r0, evs0)" by (cases "loop_body b c n i w")
  show ?case
  proof (cases r0)
    case (Inl e)
    with Cons.prems b show ?thesis by simp
  next
    case (Inr pushed)
    obtain r1 evs1 where l: "word_loop b c n (Suc i) ws (sel @ pushed) = (r1, evs1)"
      by (cases "word_loop b c n (Suc i) ws (sel @ pushed)")
    from Cons.prems b Inr l have r1: "r1 = Inr sel'" and evs: "evs = evs0 @ evs1" by auto
    note ih = Cons.IH [OF l [unfolded r1]]
    note lb = loop_body_Inr [OF b [unfolded Inr]]
    show ?thesis
      using ih lb by (simp add: evs requests_append stdout_append calls_for_def)
  qed
qed

lemma word_loop_Cons_Inl:
  "loop_body b c n i w = (Inl e, evs0) \<Longrightarrow> word_loop b c n i (w # ws) sel = (Inl e, evs0)"
  by simp

lemma word_loop_Cons_Inr:
  "loop_body b c n i w = (Inr pushed, evs0) \<Longrightarrow>
     word_loop b c n i (w # ws) sel =
       (fst (word_loop b c n (Suc i) ws (sel @ pushed)),
        evs0 @ snd (word_loop b c n (Suc i) ws (sel @ pushed)))"
  by (simp add: case_prod_beta)

lemma word_loop_quiet:
  "requests TranslationSchema (snd (word_loop b c n i ws sel)) = [] \<and>
   files_written (snd (word_loop b c n i ws sel)) = []"
proof (induction ws arbitrary: i sel)
  case Nil
  then show ?case by simp
next
  case (Cons w ws)
  obtain r0 evs0 where b: "loop_body b c n i w = (r0, evs0)" by (cases "loop_body b c n i w")
  have q: "requests TranslationSchema evs0 = []" "files_written evs0 = []"
    using loop_body_quiet [of b c n i w] b by simp_all
  show ?case
  proof (cases r0)
    case (Inl e)
    with b q show ?thesis by (simp add: word_loop_Cons_Inl del: word_loop.simps)
  next
    case (Inr pushed)
    with b q Cons.IH [of "Suc i" "sel @ pushed"] show ?thesis
      by (simp add: word_loop_Cons_Inr requests_append files_written_append del: word_loop.simps)
  qed
qed

lemma word_loop_first:
  "ws \<noteq> [] \<Longrightarrow>
     take 1 (snd (word_loop b c n i ws sel)) = [GenerateObject MeaningSchema (meaning_prompt (hd ws))]"
proof (cases ws)
  case Nil
  assume "ws \<noteq> []"
  with Nil show ?thesis by simp
next
  case (Cons w ws')
  obtain r0 evs0 where b: "loop_body b c n i w = (r0, evs0)" by (cases "loop_body b c n i w")
  have f: "take 1 evs0 = [GenerateObject MeaningSchema (meaning_prompt w)]"
    using loop_body_first [of b c n i w] b by simp
  then have "evs0 \<noteq> []" by auto
  with f have "take 1 (evs0 @ evs') = [GenerateObject MeaningSchema (meaning_prompt w)]" for evs'
    by (cases evs0) auto
  with Cons b f show ?thesis
    by (cases r0) (simp_all add: word_loop_Cons_Inl word_loop_Cons_Inr del: word_loop.simps)
qed

text \<open>Whatever happens in the loop, the requests made are for a prefix of the words.\<close>

lemma word_loop_meaning_prefix:
  "\<exists>k\<le>length ws. requests MeaningSchema (snd (word_loop b c n i ws sel)) = map meaning_prompt (take k ws)"
proof (induction ws arbitrary: i sel)
  case Nil
  show ?case by simp
next
  case (Cons w ws)
  obtain r0 evs0 where b: "loop_body b c n i w = (r0, evs0)" by (cases "loop_body b c n i w")
  have m: "requests MeaningSchema evs0 = [meaning_prompt w]"
    using b by (auto simp: loop_body_def getWordMeaning_def generatePhrases_def Let_def
        split: sum.splits)
  show ?case
  proof (cases r0)
    case (Inl e)
    with b m have "requests MeaningSchema (snd (word_loop b c n i (w # ws) sel))
                   = map meaning_prompt (take 1 (w # ws))"
      by (simp add: word_loop_Cons_Inl del: word_loop.simps)
    then show ?thesis by (intro exI [of _ 1]) simp
  next
    case (Inr pushed)
    from Cons.IH [of "Suc i" "sel @ pushed"] obtain k where k: "k \<le> length ws"
      "requests MeaningSchema (snd (word_loop b c n (Suc i) ws (sel @ pushed)))
         = map meaning_prompt (take k ws)" by blast
    with b m Inr have "requests MeaningSchema (snd (word_loop b c n i (w # ws) sel))
                   = map meaning_prompt (take (Suc k) (w # ws))"
      by (simp add: word_loop_Cons_Inr requests_append del: word_loop.simps)
    with k(1) show ?thesis by (intro exI [of _ "Suc k"]) simp
  qed
qed

lemma word_loop_phrases_prefix:
  "\<exists>k\<le>length ws. requests PhrasesSchema (snd (word_loop b c n i ws sel))
                      = map (phrases_prompt b n) (take k ws)"
proof (induction ws arbitrary: i sel)
  case Nil
  show ?case by simp
next
  case (Cons w ws)
  obtain r0 evs0 where b: "loop_body b c n i w = (r0, evs0)" by (cases "loop_body b c n i w")
  have p: "requests PhrasesSchema evs0 = [] \<and> isl r0 \<or> requests PhrasesSchema evs0 = [phrases_prompt b n w]"
    using b by (auto simp: loop_body_def getWordMeaning_def generatePhrases_def Let_def
        split: sum.splits)
  show ?case
  proof (cases r0)
    case (Inl e)
    with b p have "requests PhrasesSchema (snd (word_loop b c n i (w # ws) sel))
                     = map (phrases_prompt b n) (take 0 (w # ws)) \<or>
                   requests PhrasesSchema (snd (word_loop b c n i (w # ws) sel))
                     = map (phrases_prompt b n) (take 1 (w # ws))"
      by (auto simp add: word_loop_Cons_Inl simp del: word_loop.simps)
    then show ?thesis
    proof
      assume "requests PhrasesSchema (snd (word_loop b c n i (w # ws) sel))
                     = map (phrases_prompt b n) (take 0 (w # ws))"
      then show ?thesis by (intro exI [of _ 0]) simp
    next
      assume "requests PhrasesSchema (snd (word_loop b c n i (w # ws) sel))
                     = map (phrases_prompt b n) (take 1 (w # ws))"
      then show ?thesis by (intro exI [of _ 1]) simp
    qed
  next
    case (Inr pushed)
    from Cons.IH [of "Suc i" "sel @ pushed"] obtain k where k: "k \<le> length ws"
      "requests PhrasesSchema (snd (word_loop b c n (Suc i) ws (sel @ pushed)))
         = map (phrases_prompt b n) (take k ws)" by blast
    with b p Inr have "requests PhrasesSchema (snd (word_loop b c n i (w # ws) sel))
                   = map (phrases_prompt b n) (take (Suc k) (w # ws))"
      by (simp add: word_loop_Cons_Inr requests_append del: word_loop.simps)
    with k(1) show ?thesis by (intro exI [of _ "Suc k"]) simp
  qed
qed

section \<open>Lemmas: \<open>Promise_all\<close>\<close>

lemma those_Some_iff: "those xs = Some ys \<longleftrightarrow> xs = map Some ys"
  by (induction xs arbitrary: ys) (auto split: option.splits)

lemma settle_all_rejects:
  "j \<in> set order \<Longrightarrow> j < length outcomes \<Longrightarrow> outcomes ! j = Inl e0 \<Longrightarrow>
     \<exists>e. settle_all outcomes order vals = Rejected e"
  by (induction order arbitrary: vals) (auto split: sum.splits)

lemma settle_all_Fulfilled:
  "settle_all outcomes order vals = Fulfilled ts \<Longrightarrow> length vals = length outcomes \<Longrightarrow>
     (\<forall>i<length outcomes. \<forall>v. vals ! i = Some v \<longrightarrow> outcomes ! i = Inr v) \<Longrightarrow>
     map Inr ts = outcomes"
proof (induction order arbitrary: vals)
  case Nil
  then have "vals = map Some ts" by (simp add: those_Some_iff split: option.splits)
  with Nil show ?case by (auto simp: list_eq_iff_nth_eq)
next
  case (Cons j order)
  show ?case
  proof (cases "j < length outcomes")
    case True
    then obtain v where v: "outcomes ! j = Inr v" using Cons.prems(1) by (auto split: sum.splits)
    with True Cons.prems have "settle_all outcomes order (vals[j := Some v]) = Fulfilled ts" by simp
    moreover have "\<forall>i<length outcomes. \<forall>u. vals[j := Some v] ! i = Some u \<longrightarrow> outcomes ! i = Inr u"
      using Cons.prems(2,3) v True by (auto simp: nth_list_update)
    ultimately show ?thesis using Cons.IH Cons.prems(2) by simp
  next
    case False
    with Cons show ?thesis by simp
  qed
qed

lemma settle_all_fulfils:
  "length vals = length outcomes \<Longrightarrow>
   (\<forall>i<length outcomes. \<forall>v. vals ! i = Some v \<longrightarrow> outcomes ! i = Inr v) \<Longrightarrow>
   outcomes = map Inr ts \<Longrightarrow>
   (\<forall>i<length outcomes. i \<in> set order \<or> vals ! i \<noteq> None) \<Longrightarrow>
   settle_all outcomes order vals = Fulfilled ts"
proof (induction order arbitrary: vals)
  case Nil
  then have "vals = map Some ts" by (auto simp: list_eq_iff_nth_eq)
  then have "those vals = Some ts" by (simp add: those_Some_iff)
  then show ?case by simp
next
  case (Cons j order)
  show ?case
  proof (cases "j < length outcomes")
    case True
    then have v: "outcomes ! j = Inr (ts ! j)" using Cons.prems(3) by simp
    have "settle_all outcomes order (vals[j := Some (ts ! j)]) = Fulfilled ts"
    proof (rule Cons.IH)
      show "length (vals[j := Some (ts ! j)]) = length outcomes" using Cons.prems(1) by simp
      show "\<forall>i<length outcomes. \<forall>u. vals[j := Some (ts ! j)] ! i = Some u \<longrightarrow> outcomes ! i = Inr u"
        using Cons.prems(1,2) v True by (auto simp: nth_list_update)
      show "outcomes = map Inr ts" by fact
      show "\<forall>i<length outcomes. i \<in> set order \<or> vals[j := Some (ts ! j)] ! i \<noteq> None"
        using Cons.prems(1,4) True by (auto simp: nth_list_update)
    qed
    with True v show ?thesis by simp
  next
    case False
    have "settle_all outcomes order vals = Fulfilled ts"
      using Cons.prems False by (intro Cons.IH) auto
    with False show ?thesis by simp
  qed
qed

lemma settle_all_pending:
  "length vals = length outcomes \<Longrightarrow>
   (\<forall>j\<in>set order. j < length outcomes \<longrightarrow> \<not> isl (outcomes ! j)) \<Longrightarrow>
   i < length outcomes \<Longrightarrow> i \<notin> set order \<Longrightarrow> vals ! i = None \<Longrightarrow>
   settle_all outcomes order vals = Pending"
proof (induction order arbitrary: vals)
  case Nil
  then have "None \<in> set vals" by (metis nth_mem)
  then have "those vals = None"
    by (induction vals) (auto split: option.splits)
  then show ?case by simp
next
  case (Cons j order)
  then show ?case
    by (cases "outcomes ! j") (auto simp: nth_list_update)
qed

lemma Promise_all_Fulfilled:
  "Promise_all outcomes order = Fulfilled ts \<Longrightarrow> map Inr ts = outcomes"
  unfolding Promise_all_def by (erule settle_all_Fulfilled) auto

lemma Promise_all_fulfils:
  "outcomes = map Inr ts \<Longrightarrow> {..<length outcomes} \<subseteq> set order \<Longrightarrow>
     Promise_all outcomes order = Fulfilled ts"
  unfolding Promise_all_def by (rule settle_all_fulfils) auto

lemma Promise_all_rejects:
  "j \<in> set order \<Longrightarrow> j < length outcomes \<Longrightarrow> outcomes ! j = Inl e0 \<Longrightarrow>
     \<exists>e. Promise_all outcomes order = Rejected e"
  unfolding Promise_all_def by (rule settle_all_rejects)

lemma Promise_all_pending:
  "(\<forall>j\<in>set order. j < length outcomes \<longrightarrow> \<not> isl (outcomes ! j)) \<Longrightarrow>
   i < length outcomes \<Longrightarrow> i \<notin> set order \<Longrightarrow> Promise_all outcomes order = Pending"
  unfolding Promise_all_def by (rule settle_all_pending) auto

text \<open>
  What the whole settles to depends on which promises complete, not on the order: two
  orders over the same promises give the same result, but for the error of a rejection.
\<close>

lemma Promise_all_same_completed:
  assumes "set o1 = set o2"
  shows "Promise_all outcomes o1 = Promise_all outcomes o2 \<or>
         (\<exists>e e'. Promise_all outcomes o1 = Rejected e \<and> Promise_all outcomes o2 = Rejected e')"
proof (cases "\<exists>j\<in>set o1. j < length outcomes \<and> isl (outcomes ! j)")
  case True
  then obtain j where j: "j \<in> set o1" "j < length outcomes" "isl (outcomes ! j)" by blast
  then obtain e0 where "outcomes ! j = Inl e0" by (cases "outcomes ! j") auto
  with j assms obtain e e' where
    "Promise_all outcomes o1 = Rejected e" "Promise_all outcomes o2 = Rejected e'"
    using Promise_all_rejects by metis
  then show ?thesis by simp
next
  case nofail: False
  show ?thesis
  proof (cases "{..<length outcomes} \<subseteq> set o1")
    case True
    have "\<forall>i<length outcomes. \<not> isl (outcomes ! i)" using nofail True by auto
    then have "outcomes = map Inr (map projr outcomes)"
      by (auto simp: list_eq_iff_nth_eq)
    with True assms have "Promise_all outcomes o1 = Fulfilled (map projr outcomes)"
      "Promise_all outcomes o2 = Fulfilled (map projr outcomes)"
      using Promise_all_fulfils by metis+
    then show ?thesis by simp
  next
    case False
    then obtain i where "i < length outcomes" "i \<notin> set o1" by auto
    with nofail assms have "Promise_all outcomes o1 = Pending" "Promise_all outcomes o2 = Pending"
      using Promise_all_pending by metis+
    then show ?thesis by simp
  qed
qed

section \<open>Lemmas: the translations\<close>

lemma fst_translate_entry:
  "fst (translate_entry c j p) = GenerateObject TranslationSchema (translation_prompt (phrase p))"
  by (simp add: translate_entry_def translatePhrase_def Let_def split: sum.splits)

lemma snd_translate_entry:
  "snd (translate_entry c j p) =
     (case generateObject_translation c j (translation_prompt (phrase p)) of
        Inl e \<Rightarrow> Inl e
      | Inr t \<Rightarrow> Inr \<lparr>english = phrase p, portuguese = t,
                     pair.meaning = pending.meaning p, pair.word = pending.word p\<rparr>)"
  by (simp add: translate_entry_def translatePhrase_def Let_def split: sum.splits)

lemma length_translate_entries: "length (translate_entries c sel) = length sel"
  by (simp add: translate_entries_def)

lemma nth_translate_entries:
  "i < length sel \<Longrightarrow> translate_entries c sel ! i = translate_entry c i (sel ! i)"
  by (simp add: translate_entries_def nth_enumerate_eq)

lemma map_fst_translate_entries:
  "map fst (translate_entries c sel) =
     map (\<lambda>p. GenerateObject TranslationSchema (translation_prompt (phrase p))) sel"
  by (rule nth_equalityI)
    (simp_all add: length_translate_entries nth_translate_entries fst_translate_entry)

lemma requests_translation_calls:
  "requests TranslationSchema
     (map (\<lambda>p. GenerateObject TranslationSchema (translation_prompt (phrase p))) sel)
   = map (\<lambda>p. translation_prompt (phrase p)) sel"
  by (induction sel) auto

lemma translation_calls_quiet:
  "filter loop_call (map (\<lambda>p. GenerateObject TranslationSchema (translation_prompt (phrase p))) sel) = []"
  "stdout (map (\<lambda>p. GenerateObject TranslationSchema (translation_prompt (phrase p))) sel) = []"
  "files_written (map (\<lambda>p. GenerateObject TranslationSchema (translation_prompt (phrase p))) sel) = []"
  by (induction sel) auto

lemma translations_of_Fulfilled:
  assumes "translations_of c sel order = Fulfilled ts"
  shows "length ts = length sel"
    and "i < length sel \<Longrightarrow> snd (translate_entry c i (sel ! i)) = Inr (ts ! i)"
proof -
  from assms have eq: "map Inr ts = map snd (translate_entries c sel)"
    unfolding translations_of_def by (rule Promise_all_Fulfilled)
  then have "length (map Inr ts :: (error + pair) list) = length (map snd (translate_entries c sel))"
    by simp
  then show len: "length ts = length sel" by (simp add: length_translate_entries)
  assume i: "i < length sel"
  with len eq have "(map Inr ts :: (error + pair) list) ! i = map snd (translate_entries c sel) ! i"
    by simp
  with i len show "snd (translate_entry c i (sel ! i)) = Inr (ts ! i)"
    by (simp add: length_translate_entries nth_translate_entries)
qed

section \<open>Lemmas: \<open>main\<close> and the script\<close>

lemma main_loop_failed:
  "word_loop b c n 0 ws [] = (Inl e, evs) \<Longrightarrow> main b c ws n f order = (Rejected e, evs)"
  by (simp add: main_def)

lemma main_not_fulfilled:
  assumes "word_loop b c n 0 ws [] = (Inr sel, evs)"
  shows "translations_of c sel order = Rejected e \<Longrightarrow>
           main b c ws n f order = (Rejected e, evs @ map fst (translate_entries c sel))"
    and "translations_of c sel order = Pending \<Longrightarrow>
           main b c ws n f order = (Pending, evs @ map fst (translate_entries c sel))"
  using assms by (simp_all add: main_def)

lemma main_fulfilled:
  assumes "word_loop b c n 0 ws [] = (Inr sel, evs)"
    and "translations_of c sel order = Fulfilled ts"
  shows "main b c ws n False order =
           (Fulfilled (),
            evs @ map fst (translate_entries c sel) @
            [ConsoleLog (NL @ ''Final Output:'' @ NL), ConsoleLog (outputContent ts)])"
    and "fst (main b c ws n True order) =
           (case writeFileSync c ''flashcards.txt'' (flashcardsContent ts) of
              Some e \<Rightarrow> Rejected e | None \<Rightarrow> Fulfilled ())"
    and "snd (main b c ws n True order) =
           evs @ map fst (translate_entries c sel) @
           [ConsoleLog (NL @ ''Final Output:'' @ NL), ConsoleLog (outputContent ts),
            WriteFileSync ''flashcards.txt'' (flashcardsContent ts)] @
           (case writeFileSync c ''flashcards.txt'' (flashcardsContent ts) of
              Some e \<Rightarrow> []
            | None \<Rightarrow> [ConsoleLog (NL @ ''Flashcards file '' @ DQ @ ''flashcards.txt'' @ DQ
                                     @ '' has been generated.'' @ NL)])"
  using assms by (simp_all add: main_def Let_def split: option.splits)

text \<open>The script past its three checks.\<close>

lemma program_valid:
  assumes "truthy (env ''DEEPSEEK_API_KEY'')" and "words a \<noteq> []"
    and "\<not> Number_isNaN (numPhrases_of b a)" and "\<not> le_zero (numPhrases_of b a)"
  shows "program b env a c order =
           (case main b c (words a) (numPhrases_of b a) (flashcards_of a) order of
              (Fulfilled u, evs) \<Rightarrow> \<lparr>trace = evs, exit_code = Some 0\<rparr>
            | (Rejected e, evs) \<Rightarrow>
                \<lparr>trace = evs @ [ConsoleErrorWith ''An error occurred:'' e], exit_code = Some 1\<rparr>
            | (Pending, evs) \<Rightarrow> \<lparr>trace = evs, exit_code = None\<rparr>)"
  using assms by (simp add: program_def model_def)

lemma requests_of_translation_calls:
  "s \<noteq> TranslationSchema \<Longrightarrow>
     requests s (map (\<lambda>p. GenerateObject TranslationSchema (translation_prompt (phrase p))) sel) = []"
  by (induction sel) auto

text \<open>What \<open>main\<close> does after the loop holds no call of the loop.\<close>

lemma main_trace:
  "\<exists>rest. snd (main b c ws n f order) = snd (word_loop b c n 0 ws []) @ rest \<and>
          filter loop_call rest = [] \<and>
          requests MeaningSchema rest = [] \<and> requests PhrasesSchema rest = []"
proof (cases "word_loop b c n 0 ws []")
  case (Pair r evs)
  show ?thesis
  proof (cases r)
    case (Inl e)
    with Pair show ?thesis by (simp add: main_def)
  next
    case (Inr sel)
    let ?calls = "map fst (translate_entries c sel)"
    have q: "filter loop_call ?calls = []" "requests MeaningSchema ?calls = []"
      "requests PhrasesSchema ?calls = []"
      by (simp_all add: map_fst_translate_entries translation_calls_quiet
          requests_of_translation_calls)
    show ?thesis
    proof (cases "translations_of c sel order")
      case Pending
      with Pair Inr q show ?thesis by (simp add: main_def)
    next
      case (Rejected e)
      with Pair Inr q show ?thesis by (simp add: main_def)
    next
      case (Fulfilled ts)
      with Pair Inr q show ?thesis
        by (cases f; cases "writeFileSync c ''flashcards.txt'' (flashcardsContent ts)")
          (simp_all add: main_def Let_def requests_append)
    qed
  qed
qed

lemma program_trace:
  assumes "truthy (env ''DEEPSEEK_API_KEY'')" and "words a \<noteq> []"
    and "\<not> Number_isNaN (numPhrases_of b a)" and "\<not> le_zero (numPhrases_of b a)"
  shows "\<exists>rest. trace (program b env a c order)
                  = snd (word_loop b c (numPhrases_of b a) 0 (words a) []) @ rest \<and>
          filter loop_call rest = [] \<and>
          requests MeaningSchema rest = [] \<and> requests PhrasesSchema rest = []"
proof -
  obtain rest where rest: "snd (main b c (words a) (numPhrases_of b a) (flashcards_of a) order)
      = snd (word_loop b c (numPhrases_of b a) 0 (words a) []) @ rest"
    "filter loop_call rest = []" "requests MeaningSchema rest = []"
    "requests PhrasesSchema rest = []"
    using main_trace by blast
  show ?thesis
  proof (cases "main b c (words a) (numPhrases_of b a) (flashcards_of a) order")
    case (Pair p evs)
    with rest show ?thesis
      unfolding program_valid [of env a, OF assms]
      by (cases p) (auto simp: requests_append)
  qed
qed

lemma program_first:
  assumes "truthy (env ''DEEPSEEK_API_KEY'')" and "words a \<noteq> []"
    and "\<not> Number_isNaN (numPhrases_of b a)" and "\<not> le_zero (numPhrases_of b a)"
  shows "take 1 (trace (program b env a c order))
           = [GenerateObject MeaningSchema (meaning_prompt (hd (words a)))]"
proof -
  obtain rest where "trace (program b env a c order)
      = snd (word_loop b c (numPhrases_of b a) 0 (words a) []) @ rest"
    using program_trace [of env a, OF assms] by blast
  moreover have "take 1 (evs @ rest) = take 1 evs" if "take 1 evs = [x]" for evs x
    using that by (cases evs) auto
  ultimately show ?thesis
    using word_loop_first [OF assms(2), of b c "numPhrases_of b a" 0 "[]"] by simp
qed

text \<open>The loop completes when every call it makes is answered with a value.\<close>

lemma loop_body_answered:
  "answered b c n (i, w) \<Longrightarrow> \<exists>es evs. loop_body b c n i w = (Inr es, evs)"
  by (cases "generateObject_meaning c i (meaning_prompt w)";
      cases "generateObject_phrases c i (phrases_prompt b n w)";
      cases "inquirer_prompt c i (checkbox_message w) (phrases_at b c n i w)")
    (simp_all add: answered_def loop_body_def getWordMeaning_def generatePhrases_def
      phrases_at_def Let_def)

lemma word_loop_answered:
  "list_all (answered b c n) (enumerate i ws) \<Longrightarrow> \<exists>sel' evs. word_loop b c n i ws sel = (Inr sel', evs)"
proof (induction ws arbitrary: i sel)
  case Nil
  then show ?case by simp
next
  case (Cons w ws)
  then obtain es evs0 where b: "loop_body b c n i w = (Inr es, evs0)"
    using loop_body_answered [of b c n i w] by auto
  from Cons.prems have "list_all (answered b c n) (enumerate (Suc i) ws)" by simp
  from Cons.IH [OF this, of "sel @ es"] obtain sel' evs1
    where "word_loop b c n (Suc i) ws (sel @ es) = (Inr sel', evs1)" by blast
  with b show ?case by (simp add: word_loop_Cons_Inr del: word_loop.simps)
qed

text \<open>Two completion orders over the same requests: the same run, but for the error.\<close>

lemma main_same_completed:
  assumes "set o1 = set o2"
  shows "main b c ws n f o1 = main b c ws n f o2 \<or>
         (\<exists>e e' evs. main b c ws n f o1 = (Rejected e, evs) \<and> main b c ws n f o2 = (Rejected e', evs))"
proof (cases "word_loop b c n 0 ws []")
  case (Pair r evs)
  show ?thesis
  proof (cases r)
    case (Inl e)
    with Pair show ?thesis by (simp add: main_loop_failed)
  next
    case (Inr sel)
    from Promise_all_same_completed [OF assms, of "map snd (translate_entries c sel)"]
    have "translations_of c sel o1 = translations_of c sel o2 \<or>
          (\<exists>e e'. translations_of c sel o1 = Rejected e \<and> translations_of c sel o2 = Rejected e')"
      by (simp add: translations_of_def)
    then show ?thesis
    proof
      assume "translations_of c sel o1 = translations_of c sel o2"
      with Pair Inr show ?thesis by (simp add: main_def)
    next
      assume "\<exists>e e'. translations_of c sel o1 = Rejected e \<and> translations_of c sel o2 = Rejected e'"
      then obtain e e' where "translations_of c sel o1 = Rejected e"
        "translations_of c sel o2 = Rejected e'" by blast
      with Pair Inr show ?thesis
        using main_not_fulfilled(1) [of b c n ws sel evs] by simp
    qed
  qed
qed

text \<open>After the loop, \<open>main\<close> issues the translation requests, entry by entry.\<close>

lemma main_after_loop:
  assumes "word_loop b c n 0 ws [] = (Inr sel, evs)"
  shows "\<exists>rest. snd (main b c ws n f order)
                  = evs @ map (\<lambda>p. GenerateObject TranslationSchema (translation_prompt (phrase p))) sel
                    @ rest \<and>
           requests TranslationSchema rest = [] \<and> filter loop_call rest = []"
proof (cases "translations_of c sel order")
  case Pending
  with assms show ?thesis by (simp add: main_def map_fst_translate_entries)
next
  case (Rejected e)
  with assms show ?thesis by (simp add: main_def map_fst_translate_entries)
next
  case (Fulfilled ts)
  with assms show ?thesis
    by (cases f; cases "writeFileSync c ''flashcards.txt'' (flashcardsContent ts)")
      (simp_all add: main_def Let_def map_fst_translate_entries)
qed

section \<open>The claims\<close>


subsection \<open>C1: the translations correspond to the entries by index\<close>

text \<open>
  C1: whatever the order in which the translation requests complete, when the translation
  stage yields its list, the list is as long as \<^verbatim>\<open>selectedPhrases\<close>, and at every index the
  \<open>word\<close> and \<open>meaning\<close> of the pair are those of the entry and its \<open>english\<close> is the
  phrase of the entry; two completion orders that both yield a list yield the same list.
  The stage does yield a list whenever every request is answered and completes.
\<close>

theorem translations_by_index:
  "(translations_of c sel order = Fulfilled ts \<longrightarrow>
      length ts = length sel \<and>
      (\<forall>i<length sel.
         pair.word (ts ! i) = pending.word (sel ! i) \<and>
         pair.meaning (ts ! i) = pending.meaning (sel ! i) \<and>
         english (ts ! i) = phrase (sel ! i)) \<and>
      (\<forall>order' ts'. translations_of c sel order' = Fulfilled ts' \<longrightarrow> ts' = ts)) \<and>
   ((\<forall>j<length sel. j \<in> set order \<and> \<not> isl (snd (translate_entry c j (sel ! j)))) \<longrightarrow>
      (\<exists>ts. translations_of c sel order = Fulfilled ts))"
proof (intro conjI impI allI)
  assume f: "translations_of c sel order = Fulfilled ts"
  show "length ts = length sel" using f by (rule translations_of_Fulfilled)
  have fields: "\<exists>t. ts ! i = \<lparr>english = phrase (sel ! i), portuguese = t,
                                pair.meaning = pending.meaning (sel ! i),
                                pair.word = pending.word (sel ! i)\<rparr>" if "i < length sel" for i
    using translations_of_Fulfilled(2) [OF f that, symmetric]
    by (cases "generateObject_translation c i (translation_prompt (phrase (sel ! i)))")
      (auto simp: snd_translate_entry)
  show "pair.word (ts ! i) = pending.word (sel ! i)" if "i < length sel" for i
    using fields [OF that] by auto
  show "pair.meaning (ts ! i) = pending.meaning (sel ! i)" if "i < length sel" for i
    using fields [OF that] by auto
  show "english (ts ! i) = phrase (sel ! i)" if "i < length sel" for i
    using fields [OF that] by auto
  show "ts' = ts" if "translations_of c sel order' = Fulfilled ts'" for order' ts'
  proof -
    have "map Inr ts' = (map Inr ts :: (error + pair) list)"
      using Promise_all_Fulfilled [OF that [unfolded translations_of_def]]
        Promise_all_Fulfilled [OF f [unfolded translations_of_def]] by simp
    then show ?thesis by (simp add: inj_map_eq_map)
  qed
next
  assume a: "\<forall>j<length sel. j \<in> set order \<and> \<not> isl (snd (translate_entry c j (sel ! j)))"
  let ?outcomes = "map snd (translate_entries c sel)"
  have "?outcomes = map Inr (map projr ?outcomes)"
    using a by (auto simp: list_eq_iff_nth_eq length_translate_entries nth_translate_entries)
  moreover have "{..<length ?outcomes} \<subseteq> set order"
    using a by (auto simp: length_translate_entries)
  ultimately have "Promise_all ?outcomes order = Fulfilled (map projr ?outcomes)"
    by (rule Promise_all_fulfils)
  then show "\<exists>ts. translations_of c sel order = Fulfilled ts"
    by (simp add: translations_of_def)
qed

theorem translations_by_index_witness:
  "translations_of steady
     [\<lparr>phrase = ''p1'', pending.meaning = ''m'', pending.word = ''run''\<rparr>,
      \<lparr>phrase = ''p2'', pending.meaning = ''k'', pending.word = ''jump''\<rparr>] [1, 0]
   = Fulfilled
       [\<lparr>english = ''p1'', portuguese = ''t'', pair.meaning = ''m'', pair.word = ''run''\<rparr>,
        \<lparr>english = ''p2'', portuguese = ''t'', pair.meaning = ''k'', pair.word = ''jump''\<rparr>] \<and>
   translations_of steady
     [\<lparr>phrase = ''p1'', pending.meaning = ''m'', pending.word = ''run''\<rparr>,
      \<lparr>phrase = ''p2'', pending.meaning = ''k'', pending.word = ''jump''\<rparr>] [0, 1]
   = Fulfilled
       [\<lparr>english = ''p1'', portuguese = ''t'', pair.meaning = ''m'', pair.word = ''run''\<rparr>,
        \<lparr>english = ''p2'', portuguese = ''t'', pair.meaning = ''k'', pair.word = ''jump''\<rparr>]"
proof -
  let ?sel = "[\<lparr>phrase = ''p1'', pending.meaning = ''m'', pending.word = ''run''\<rparr>,
               \<lparr>phrase = ''p2'', pending.meaning = ''k'', pending.word = ''jump''\<rparr>]"
  let ?ts = "[\<lparr>english = ''p1'', portuguese = ''t'', pair.meaning = ''m'', pair.word = ''run''\<rparr>,
              \<lparr>english = ''p2'', portuguese = ''t'', pair.meaning = ''k'', pair.word = ''jump''\<rparr>]"
  have f: "translations_of steady ?sel [1, 0] = Fulfilled ?ts"
    by (simp add: translations_of_def translate_entries_def translate_entry_def
        translatePhrase_def Promise_all_def steady_def Let_def)
  have a: "\<forall>j<length ?sel. j \<in> set [0, 1] \<and> \<not> isl (snd (translate_entry steady j (?sel ! j)))"
    by (auto simp: less_Suc_eq numeral_2_eq_2 translate_entry_def translatePhrase_def steady_def Let_def)
  from translations_by_index [of steady ?sel "[0, 1]" ?ts] a
  obtain ts' where g: "translations_of steady ?sel [0, 1] = Fulfilled ts'" by blast
  from translations_by_index [of steady ?sel "[1, 0]" ?ts] f g have "ts' = ?ts" by blast
  with f g show ?thesis by simp
qed

subsection \<open>C2: the content of the file\<close>

text \<open>
  C2, as stated: the content written has the three header lines and one line for each
  pair, so 3 lines plus the number of pairs. It does not hold for the lines of the file:
  the fields are written as they came, and a field may hold a line feed. Here the one pair
  has a meaning in two lines, and the content written for it has 5 lines.
\<close>

theorem meaning_in_two_lines_adds_a_line:
  "files_written (trace (program tabled env_with_key args_run_jump wordy [0]))
     = [(''flashcards.txt'',
         flashcardsContent
           [\<lparr>english = ''p1'', portuguese = ''t'', pair.meaning = ''m1'' @ NL @ ''m2'',
             pair.word = ''run''\<rparr>])] \<and>
   length (lines (flashcardsContent
           [\<lparr>english = ''p1'', portuguese = ''t'', pair.meaning = ''m1'' @ NL @ ''m2'',
             pair.word = ''run''\<rparr>])) = 5"
proof -
  have "files_written (trace (program tabled env_with_key args_run_jump wordy [0]))
     = [(''flashcards.txt'',
         flashcardsContent
           [\<lparr>english = ''p1'', portuguese = ''t'', pair.meaning = ''m1'' @ NL @ ''m2'',
             pair.word = ''run''\<rparr>])]"
    by (simp add: program_def model_def env_with_key_def args_run_jump_def words_def split_def
        numPhrases_of_def tabled_def flashcards_of_def main_def loop_body_def
        getWordMeaning_def generatePhrases_def translations_of_def translate_entries_def
        translate_entry_def translatePhrase_def Promise_all_def wordy_def steady_def Let_def)
  moreover have "length (lines (flashcardsContent
           [\<lparr>english = ''p1'', portuguese = ''t'', pair.meaning = ''m1'' @ NL @ ''m2'',
             pair.word = ''run''\<rparr>])) = 5"
    by (simp add: lines_def split_def flashcardsContent_def flashcard_line_def)
  ultimately show ?thesis by simp
qed

text \<open>
  C2, amended: when the flashcards flag is set and the loop and the translations
  succeeded, the run writes one file, \<^verbatim>\<open>flashcards.txt\<close>, whose content is the three fixed
  headers followed by one item for each pair, each item the template filled with the
  \<open>english\<close>, the \<open>word\<close> and the \<open>meaning\<close> of the pair, the items joined by line feeds
  with none after the last. When no \<open>english\<close>, \<open>word\<close> or \<open>meaning\<close> holds a line feed, the
  lines of the file are these items: 3 plus the number of pairs, the last not blank.
\<close>

theorem content_of_the_file:
  assumes "truthy (env ''DEEPSEEK_API_KEY'')" and "words a \<noteq> []"
    and "\<not> Number_isNaN (numPhrases_of b a)" and "\<not> le_zero (numPhrases_of b a)" and "args_flashcards a"
    and "fst (word_loop b c (numPhrases_of b a) 0 (words a) []) = Inr sel"
    and "translations_of c sel order = Fulfilled ts"
  shows "files_written (trace (program b env a c order))
           = [(''flashcards.txt'', flashcardsContent ts)] \<and>
         flashcardsContent ts
           = join NL ([''#separator:tab'', ''#html:true'', ''#tags column:3''] @
                      map (\<lambda>p. DQ @ english p @ '' <b><span style='' @ DQ
                                 @ ''color: rgb(0, 0, 255);'' @ DQ @ ''>'' @ pair.word p
                                 @ ''</span></b>'' @ DQ @ TAB @ pair.meaning p) ts) \<and>
         ((\<forall>p\<in>set ts. CHR 0x0A \<notin> set (english p) \<and> CHR 0x0A \<notin> set (pair.word p) \<and>
                      CHR 0x0A \<notin> set (pair.meaning p)) \<longrightarrow>
            lines (flashcardsContent ts)
              = [''#separator:tab'', ''#html:true'', ''#tags column:3''] @
                map (\<lambda>p. DQ @ english p @ '' <b><span style='' @ DQ
                           @ ''color: rgb(0, 0, 255);'' @ DQ @ ''>'' @ pair.word p
                           @ ''</span></b>'' @ DQ @ TAB @ pair.meaning p) ts \<and>
            length (lines (flashcardsContent ts)) = 3 + length ts \<and>
            last (lines (flashcardsContent ts)) \<noteq> [])"
proof -
  let ?line = "\<lambda>p. DQ @ english p @ '' <b><span style='' @ DQ
                     @ ''color: rgb(0, 0, 255);'' @ DQ @ ''>'' @ pair.word p
                     @ ''</span></b>'' @ DQ @ TAB @ pair.meaning p"
  let ?items = "[''#separator:tab'', ''#html:true'', ''#tags column:3''] @ map ?line ts"
  note v = assms(3,4)
  let ?evs = "snd (word_loop b c (numPhrases_of b a) 0 (words a) [])"
  have l: "word_loop b c (numPhrases_of b a) 0 (words a) [] = (Inr sel, ?evs)"
    using assms(6) by (simp add: prod_eq_iff)
  have fl: "flashcards_of a" using assms(5) by (simp add: flashcards_of_def)
  note m = main_fulfilled(2,3) [OF l assms(7)]
  have q: "files_written ?evs = []"
    using word_loop_quiet [of b c "numPhrases_of b a" 0 "words a" "[]"] by simp
  have written: "files_written (trace (program b env a c order))
           = [(''flashcards.txt'', flashcardsContent ts)]"
  proof (cases "writeFileSync c ''flashcards.txt'' (flashcardsContent ts)")
    case None
    with m have "main b c (words a) (numPhrases_of b a) True order
        = (Fulfilled (), ?evs @ map fst (translate_entries c sel) @
            [ConsoleLog (NL @ ''Final Output:'' @ NL), ConsoleLog (outputContent ts),
             WriteFileSync ''flashcards.txt'' (flashcardsContent ts),
             ConsoleLog (NL @ ''Flashcards file '' @ DQ @ ''flashcards.txt'' @ DQ
                                     @ '' has been generated.'' @ NL)])"
      by (simp add: prod_eq_iff)
    then show ?thesis
      using program_valid [of env a, OF assms(1,2) v] assms(3) fl q
      by (simp add: files_written_append map_fst_translate_entries translation_calls_quiet)
  next
    case (Some e)
    with m have "main b c (words a) (numPhrases_of b a) True order
        = (Rejected e, ?evs @ map fst (translate_entries c sel) @
            [ConsoleLog (NL @ ''Final Output:'' @ NL), ConsoleLog (outputContent ts),
             WriteFileSync ''flashcards.txt'' (flashcardsContent ts)])"
      by (simp add: prod_eq_iff)
    then show ?thesis
      using program_valid [of env a, OF assms(1,2) v] assms(3) fl q
      by (simp add: files_written_append map_fst_translate_entries translation_calls_quiet)
  qed
  have content: "flashcardsContent ts = join NL ?items"
    by (simp add: flashcardsContent_def flashcard_line_def [abs_def])
  have lines: "lines (flashcardsContent ts) = ?items"
    if "\<forall>p\<in>set ts. CHR 0x0A \<notin> set (english p) \<and> CHR 0x0A \<notin> set (pair.word p) \<and>
                      CHR 0x0A \<notin> set (pair.meaning p)"
  proof -
    have "\<forall>x\<in>set ?items. CHR 0x0A \<notin> set x" using that by auto
    moreover have "?items \<noteq> []" by simp
    ultimately have "split CHR 0x0A (join NL ?items) = ?items" by (rule split_join [rotated])
    then show ?thesis by (simp only: lines_def content)
  qed
  have last: "last ?items \<noteq> []"
    by (cases ts rule: rev_cases) simp_all
  show ?thesis
  proof (intro conjI impI)
    show "files_written (trace (program b env a c order))
           = [(''flashcards.txt'', flashcardsContent ts)]" by (rule written)
    show "flashcardsContent ts = join NL ?items" by (rule content)
  next
    assume h: "\<forall>p\<in>set ts. CHR 0x0A \<notin> set (english p) \<and> CHR 0x0A \<notin> set (pair.word p) \<and>
                      CHR 0x0A \<notin> set (pair.meaning p)"
    show "lines (flashcardsContent ts) = ?items" using h by (rule lines)
    then show "length (lines (flashcardsContent ts)) = 3 + length ts" by simp
    show "last (lines (flashcardsContent ts)) \<noteq> []"
      using lines [OF h] last by (simp only:) simp
  qed
qed

theorem content_of_the_file_witness:
  "args_flashcards args_run_jump \<and>
   files_written (trace (program tabled env_with_key args_run_jump steady [0]))
     = [(''flashcards.txt'',
         flashcardsContent
           [\<lparr>english = ''p1'', portuguese = ''t'', pair.meaning = ''m'', pair.word = ''run''\<rparr>])] \<and>
   length (lines (flashcardsContent
           [\<lparr>english = ''p1'', portuguese = ''t'', pair.meaning = ''m'', pair.word = ''run''\<rparr>]))
     = 4"
proof -
  let ?sel = "[\<lparr>phrase = ''p1'', pending.meaning = ''m'', pending.word = ''run''\<rparr>]"
  let ?ts = "[\<lparr>english = ''p1'', portuguese = ''t'', pair.meaning = ''m'', pair.word = ''run''\<rparr>]"
  have w: "words args_run_jump = [''run'', ''jump'']"
    by (simp add: args_run_jump_def words_def split_def)
  have n: "numPhrases_of tabled args_run_jump = Num 2"
    by (simp add: args_run_jump_def numPhrases_of_def tabled_def)
  have v: "\<not> Number_isNaN (numPhrases_of tabled args_run_jump)"
    "\<not> le_zero (numPhrases_of tabled args_run_jump)"
    by (simp_all add: n)
  have e: "truthy (env_with_key ''DEEPSEEK_API_KEY'')"
    by (simp add: env_with_key_def)
  have ne: "words args_run_jump \<noteq> []" by (simp add: w)
  have fl: "args_flashcards args_run_jump"
    by (simp add: args_run_jump_def)
  have l: "fst (word_loop tabled steady (numPhrases_of tabled args_run_jump) 0
                  (words args_run_jump) []) = Inr ?sel"
    by (simp add: w n loop_body_def getWordMeaning_def generatePhrases_def steady_def Let_def)
  have f: "translations_of steady ?sel [0] = Fulfilled ?ts"
    by (simp add: translations_of_def translate_entries_def translate_entry_def
        translatePhrase_def Promise_all_def steady_def Let_def)
  have nl: "\<forall>p\<in>set ?ts. CHR 0x0A \<notin> set (english p) \<and> CHR 0x0A \<notin> set (pair.word p) \<and>
                      CHR 0x0A \<notin> set (pair.meaning p)"
    by simp
  note t = content_of_the_file
    [where b = tabled and env = env_with_key and a = args_run_jump and c = steady
       and order = "[0]" and sel = ?sel and ts = ?ts, OF e ne v fl l f]
  from t have "files_written (trace (program tabled env_with_key args_run_jump steady [0]))
      = [(''flashcards.txt'', flashcardsContent ?ts)]" by simp
  moreover have "length (lines (flashcardsContent ?ts)) = 3 + length ?ts"
    by (rule t [THEN conjunct2, THEN conjunct2, THEN mp, OF nl, THEN conjunct2, THEN conjunct1])
  ultimately show ?thesis using fl by simp
qed

subsection \<open>C3: the checks before \<open>main\<close>\<close>

text \<open>
  C3, as stated: the script fails with a configuration error exactly when the word list is
  empty, or the phrase count is not a number or is at most 0, or the credential is absent.
  It does not hold: the test on the credential is \<^verbatim>\<open>!process.env.DEEPSEEK_API_KEY\<close>, which
  an empty string fails like an absent variable. Here the variable is set to the empty
  string, the words are \<open>run\<close> and \<open>jump\<close>, the count is 2, and the script fails.
\<close>

theorem empty_credential_rejected:
  "\<not> (is_config_failure (program tabled env_empty_key args_run_jump steady [0, 1]) \<longleftrightarrow>
        (words args_run_jump = [] \<or> Number_isNaN (numPhrases_of tabled args_run_jump) \<or>
         le_zero (numPhrases_of tabled args_run_jump) \<or> env_empty_key ''DEEPSEEK_API_KEY'' = None))"
  by (simp add: program_def model_def env_empty_key_def args_run_jump_def words_def split_def
      numPhrases_of_def tabled_def)

text \<open>
  C3, amended: the script fails with a configuration error (one message on standard
  error, exit status 1, no call to a collaborator) exactly when the word list is empty, or
  the phrase count (5, or what \<^verbatim>\<open>Number.parseInt\<close> makes of a non-empty \<^verbatim>\<open>-n\<close>) is \<open>NaN\<close>
  or at most 0, or the credential is absent or empty; otherwise it
  goes on to \<open>main\<close>, whose first event is the meaning request for the first word.
\<close>

theorem checks_before_main:
  "(is_config_failure (program b env a c order) \<longleftrightarrow>
      (words a = [] \<or> Number_isNaN (numPhrases_of b a) \<or> le_zero (numPhrases_of b a) \<or>
       env ''DEEPSEEK_API_KEY'' = None \<or> env ''DEEPSEEK_API_KEY'' = Some [])) \<and>
   (if is_config_failure (program b env a c order)
    then exit_code (program b env a c order) = Some 1 \<and>
         filter collaborator_call (trace (program b env a c order)) = []
    else take 1 (trace (program b env a c order))
           = [GenerateObject MeaningSchema (meaning_prompt (hd (words a)))])"
proof (cases "words a = [] \<or> Number_isNaN (numPhrases_of b a) \<or> le_zero (numPhrases_of b a) \<or>
       env ''DEEPSEEK_API_KEY'' = None \<or> env ''DEEPSEEK_API_KEY'' = Some []")
  case True
  then have "\<not> truthy (env ''DEEPSEEK_API_KEY'') \<or> words a = [] \<or>
      Number_isNaN (numPhrases_of b a) \<or> le_zero (numPhrases_of b a)"
    by (cases "env ''DEEPSEEK_API_KEY''") auto
  then have "is_config_failure (program b env a c order) \<and>
      exit_code (program b env a c order) = Some 1 \<and>
      filter collaborator_call (trace (program b env a c order)) = []"
    by (auto simp: program_def model_def)
  with True show ?thesis by simp
next
  case False
  then have v: "truthy (env ''DEEPSEEK_API_KEY'')" "words a \<noteq> []"
    "\<not> Number_isNaN (numPhrases_of b a)" "\<not> le_zero (numPhrases_of b a)"
    by (cases "env ''DEEPSEEK_API_KEY''"; simp)+
  have first: "take 1 (trace (program b env a c order))
      = [GenerateObject MeaningSchema (meaning_prompt (hd (words a)))]"
    using v by (rule program_first)
  then have "\<not> is_config_failure (program b env a c order)"
    by (cases "trace (program b env a c order)") (auto split: list.splits event.splits)
  with False first show ?thesis by simp
qed

theorem checks_before_main_witness:
  "is_config_failure (program tabled env_empty_key args_run_jump steady [0, 1]) \<and>
   exit_code (program tabled env_empty_key args_run_jump steady [0, 1]) = Some 1 \<and>
   \<not> is_config_failure (program tabled env_with_key args_run_jump steady [0, 1]) \<and>
   take 1 (trace (program tabled env_with_key args_run_jump steady [0, 1]))
     = [GenerateObject MeaningSchema (meaning_prompt ''run'')]"
proof -
  have w: "words args_run_jump = [''run'', ''jump'']"
    by (simp add: args_run_jump_def words_def split_def)
  have n: "numPhrases_of tabled args_run_jump = Num 2"
    by (simp add: args_run_jump_def numPhrases_of_def tabled_def)
  have e: "env_empty_key ''DEEPSEEK_API_KEY'' = Some []"
    "env_with_key ''DEEPSEEK_API_KEY'' = Some ''sk-1''"
    by (simp_all add: env_empty_key_def env_with_key_def)
  show ?thesis
    using checks_before_main [of tabled env_empty_key args_run_jump steady "[0, 1]"]
      checks_before_main [of tabled env_with_key args_run_jump steady "[0, 1]"] w n e
    by (simp split: if_splits)
qed

subsection \<open>C4: the calls of the loop, word by word\<close>

text \<open>
  C4, as stated: for every valid non-empty word list of length \<open>k\<close> the pipeline issues
  exactly \<open>k\<close> meaning requests and exactly \<open>k\<close> phrases requests, in list order. It does
  not hold: an \<^verbatim>\<open>await\<close> that throws leaves the loop. Here the words are \<open>run\<close> and
  \<open>jump\<close>, the first meaning request fails, and the run makes one meaning request and no
  phrases request.
\<close>

theorem failed_meaning_stops_the_loop:
  "length (words args_run_jump) = 2 \<and>
   \<not> is_config_failure (program tabled env_with_key args_run_jump mute [0, 1]) \<and>
   length (requests MeaningSchema (trace (program tabled env_with_key args_run_jump mute [0, 1]))) = 1 \<and>
   length (requests PhrasesSchema (trace (program tabled env_with_key args_run_jump mute [0, 1]))) = 0"
  by (simp add: program_def model_def env_with_key_def args_run_jump_def words_def split_def
      numPhrases_of_def tabled_def main_def loop_body_def getWordMeaning_def mute_def
      steady_def Let_def)

text \<open>
  C4, amended: for every valid non-empty word list of length \<open>k\<close>, when every meaning,
  phrases and selection call is answered with a value, the run makes exactly \<open>k\<close> meaning
  requests and exactly \<open>k\<close> phrases requests, for the words in list order, each occurrence
  of a repeated word with its own calls; and the calls of the loop are, word after word,
  the meaning request, then the phrases request, then the selection. (In every run the
  meaning requests and the phrases requests are those of an initial part of the list.)
\<close>

theorem loop_calls_in_list_order:
  assumes "truthy (env ''DEEPSEEK_API_KEY'')" and "words a \<noteq> []"
    and "\<not> Number_isNaN (numPhrases_of b a)" and "\<not> le_zero (numPhrases_of b a)"
  shows "(list_all (answered b c (numPhrases_of b a)) (enumerate 0 (words a)) \<longrightarrow>
            requests MeaningSchema (trace (program b env a c order)) = map meaning_prompt (words a) \<and>
            requests PhrasesSchema (trace (program b env a c order))
              = map (phrases_prompt b (numPhrases_of b a)) (words a) \<and>
            length (requests MeaningSchema (trace (program b env a c order))) = length (words a) \<and>
            length (requests PhrasesSchema (trace (program b env a c order))) = length (words a) \<and>
            filter loop_call (trace (program b env a c order))
              = concat (map (\<lambda>iw. [GenerateObject MeaningSchema (meaning_prompt (snd iw)),
                                     GenerateObject PhrasesSchema (phrases_prompt b (numPhrases_of b a) (snd iw)),
                                     Prompt (checkbox_message (snd iw))
                                       (phrases_at b c (numPhrases_of b a) (fst iw) (snd iw))])
                          (enumerate 0 (words a)))) \<and>
         (\<exists>j\<le>length (words a).
            requests MeaningSchema (trace (program b env a c order))
              = map meaning_prompt (take j (words a))) \<and>
         (\<exists>j\<le>length (words a).
            requests PhrasesSchema (trace (program b env a c order))
              = map (phrases_prompt b (numPhrases_of b a)) (take j (words a)))"
proof -
  note v = assms(3,4)
  obtain rest where rest:
    "trace (program b env a c order) = snd (word_loop b c (numPhrases_of b a) 0 (words a) []) @ rest"
    "filter loop_call rest = []" "requests MeaningSchema rest = []"
    "requests PhrasesSchema rest = []"
    using program_trace [of env a, OF assms(1,2) v] assms(3) by auto
  have calls: "calls_for b c (numPhrases_of b a) = (\<lambda>iw. [GenerateObject MeaningSchema (meaning_prompt (snd iw)),
                                     GenerateObject PhrasesSchema (phrases_prompt b (numPhrases_of b a) (snd iw)),
                                     Prompt (checkbox_message (snd iw))
                                       (phrases_at b c (numPhrases_of b a) (fst iw) (snd iw))])"
    by (rule ext) (simp add: calls_for_def case_prod_beta)
  show ?thesis
  proof (intro conjI impI)
    assume "list_all (answered b c (numPhrases_of b a)) (enumerate 0 (words a))"
    then obtain sel evs where l: "word_loop b c (numPhrases_of b a) 0 (words a) [] = (Inr sel, evs)"
      using word_loop_answered by blast
    note r = word_loop_Inr [OF l]
    show m: "requests MeaningSchema (trace (program b env a c order)) = map meaning_prompt (words a)"
      using r rest l by (simp add: requests_append)
    show p: "requests PhrasesSchema (trace (program b env a c order))
              = map (phrases_prompt b (numPhrases_of b a)) (words a)"
      using r rest l by (simp add: requests_append)
    show "length (requests MeaningSchema (trace (program b env a c order))) = length (words a)"
      using m by simp
    show "length (requests PhrasesSchema (trace (program b env a c order))) = length (words a)"
      using p by simp
    show "filter loop_call (trace (program b env a c order))
              = concat (map (\<lambda>iw. [GenerateObject MeaningSchema (meaning_prompt (snd iw)),
                                     GenerateObject PhrasesSchema (phrases_prompt b (numPhrases_of b a) (snd iw)),
                                     Prompt (checkbox_message (snd iw))
                                       (phrases_at b c (numPhrases_of b a) (fst iw) (snd iw))])
                          (enumerate 0 (words a)))"
      using r rest l by (simp add: calls)
  next
    show "\<exists>j\<le>length (words a).
            requests MeaningSchema (trace (program b env a c order))
              = map meaning_prompt (take j (words a))"
      using word_loop_meaning_prefix [of "words a" b c "numPhrases_of b a" 0 "[]"] rest
      by (simp add: requests_append)
  next
    show "\<exists>j\<le>length (words a).
            requests PhrasesSchema (trace (program b env a c order))
              = map (phrases_prompt b (numPhrases_of b a)) (take j (words a))"
      using word_loop_phrases_prefix [of "words a" b c "numPhrases_of b a" 0 "[]"] rest
      by (simp add: requests_append)
  qed
qed

theorem loop_calls_in_list_order_witness:
  "list_all (answered tabled steady (Num 2)) (enumerate 0 (words args_run_jump)) \<and>
   requests MeaningSchema (trace (program tabled env_with_key args_run_jump steady [0]))
     = [meaning_prompt ''run'', meaning_prompt ''jump''] \<and>
   requests PhrasesSchema (trace (program tabled env_with_key args_run_jump steady [0]))
     = [phrases_prompt tabled (Num 2) ''run'', phrases_prompt tabled (Num 2) ''jump'']"
proof -
  have w: "words args_run_jump = [''run'', ''jump'']"
    by (simp add: args_run_jump_def words_def split_def)
  have n: "numPhrases_of tabled args_run_jump = Num 2"
    by (simp add: args_run_jump_def numPhrases_of_def tabled_def)
  have v: "\<not> Number_isNaN (numPhrases_of tabled args_run_jump)"
    "\<not> le_zero (numPhrases_of tabled args_run_jump)"
    by (simp_all add: n)
  have e: "truthy (env_with_key ''DEEPSEEK_API_KEY'')"
    by (simp add: env_with_key_def)
  have ne: "words args_run_jump \<noteq> []" by (simp add: w)
  have a: "list_all (answered tabled steady (Num 2)) (enumerate 0 (words args_run_jump))"
    by (simp add: w answered_def steady_def)
  show ?thesis
    using loop_calls_in_list_order
        [where b = tabled and env = env_with_key and a = args_run_jump and c = steady
           and order = "[0]", OF e ne v] a
    by (simp add: w n)
qed

subsection \<open>C5: one failed translation\<close>

text \<open>
  C5: past the checks and the loop, when one of the translation requests fails, the run
  ends with exit status 1; it consists of the events of the loop, the translation
  requests, and the report of an error on standard error. So standard output holds the
  meanings announced word by word and nothing of the summary, and no file is written,
  whatever the flashcards flag.
\<close>

theorem failed_translation_aborts:
  assumes "truthy (env ''DEEPSEEK_API_KEY'')" and "words a \<noteq> []"
    and "\<not> Number_isNaN (numPhrases_of b a)" and "\<not> le_zero (numPhrases_of b a)"
    and "fst (word_loop b c (numPhrases_of b a) 0 (words a) []) = Inr sel"
    and "j \<in> set order" and "j < length sel"
    and "generateObject_translation c j (translation_prompt (phrase (sel ! j))) = Inl e0"
  shows "exit_code (program b env a c order) = Some 1 \<and>
         files_written (trace (program b env a c order)) = [] \<and>
         stdout (trace (program b env a c order))
           = map (\<lambda>iw. meaning_log (snd iw) (meaning_at c (fst iw) (snd iw)))
               (enumerate 0 (words a)) \<and>
         (\<exists>e. trace (program b env a c order)
                = snd (word_loop b c (numPhrases_of b a) 0 (words a) []) @
                  map (\<lambda>p. GenerateObject TranslationSchema (translation_prompt (phrase p))) sel @
                  [ConsoleErrorWith ''An error occurred:'' e])"
proof -
  note v = assms(3,4)
  let ?evs = "snd (word_loop b c (numPhrases_of b a) 0 (words a) [])"
  have l: "word_loop b c (numPhrases_of b a) 0 (words a) [] = (Inr sel, ?evs)"
    using assms(5) by (simp add: prod_eq_iff)
  have "map snd (translate_entries c sel) ! j = Inl e0"
    using assms(7,8) by (simp add: length_translate_entries nth_translate_entries
        snd_translate_entry)
  then obtain e where e: "translations_of c sel order = Rejected e"
    using Promise_all_rejects [OF assms(6), of "map snd (translate_entries c sel)" e0] assms(7)
    by (auto simp: translations_of_def length_translate_entries)
  have m: "main b c (words a) (numPhrases_of b a) (flashcards_of a) order
             = (Rejected e, ?evs @ map fst (translate_entries c sel))"
    using l e by (rule main_not_fulfilled(1))
  have p: "program b env a c order =
      \<lparr>trace = ?evs @ map fst (translate_entries c sel) @ [ConsoleErrorWith ''An error occurred:'' e],
       exit_code = Some 1\<rparr>"
    using program_valid [of env a, OF assms(1,2) v] m assms(3) by simp
  note r = word_loop_Inr [OF l] word_loop_quiet [of b c "numPhrases_of b a" 0 "words a" "[]"]
  show ?thesis
    using r unfolding p
    by (simp add: stdout_append files_written_append map_fst_translate_entries
        translation_calls_quiet)
qed

theorem failed_translation_aborts_witness:
  "args_flashcards args_run_jump \<and>
   exit_code (program tabled env_with_key args_run_jump flaky [0, 1]) = Some 1 \<and>
   files_written (trace (program tabled env_with_key args_run_jump flaky [0, 1])) = [] \<and>
   stdout (trace (program tabled env_with_key args_run_jump flaky [0, 1]))
     = [meaning_log ''run'' ''m'', meaning_log ''jump'' ''m'']"
proof -
  have w: "words args_run_jump = [''run'', ''jump'']"
    by (simp add: args_run_jump_def words_def split_def)
  have n: "numPhrases_of tabled args_run_jump = Num 2"
    by (simp add: args_run_jump_def numPhrases_of_def tabled_def)
  have v: "\<not> Number_isNaN (numPhrases_of tabled args_run_jump)"
    "\<not> le_zero (numPhrases_of tabled args_run_jump)"
    by (simp_all add: n)
  have e: "truthy (env_with_key ''DEEPSEEK_API_KEY'')"
    by (simp add: env_with_key_def)
  have ne: "words args_run_jump \<noteq> []" by (simp add: w)
  let ?sel = "[\<lparr>phrase = ''p1'', pending.meaning = ''m'', pending.word = ''run''\<rparr>,
               \<lparr>phrase = ''p1'', pending.meaning = ''m'', pending.word = ''jump''\<rparr>]"
  have l: "fst (word_loop tabled flaky (numPhrases_of tabled args_run_jump) 0
                  (words args_run_jump) []) = Inr ?sel"
    by (simp add: w n loop_body_def getWordMeaning_def generatePhrases_def flaky_def eager_def
        steady_def Let_def)
  have o: "1 \<in> set [0, 1 :: nat]" "1 < length ?sel" by simp_all
  have t: "generateObject_translation flaky 1 (translation_prompt (phrase (?sel ! 1)))
             = Inl (Error ''timeout'')"
    by (simp add: flaky_def eager_def steady_def)
  have fl: "args_flashcards args_run_jump"
    by (simp add: args_run_jump_def)
  have m: "meaning_at flaky 0 ''run'' = ''m''" "meaning_at flaky (Suc 0) ''jump'' = ''m''"
    by (simp_all add: meaning_at_def flaky_def eager_def steady_def)
  show ?thesis
    using failed_translation_aborts
        [where b = tabled and env = env_with_key and a = args_run_jump and c = flaky
           and order = "[0, 1]" and j = 1 and sel = ?sel, OF e ne v l o t] m fl
    by (simp add: w)
qed

subsection \<open>C6: a word for which nothing is chosen\<close>

text \<open>
  C6: when the selection for a word returns the empty list, the pass of the loop for that
  word pushes no entry, and the loop goes on with the next word and the list unchanged:
  its result is the result of the loop over the remaining words from the same list, and
  its events are those of the pass followed by those of the remaining words.
\<close>

theorem empty_selection_pushes_nothing:
  assumes "generateObject_meaning c i (meaning_prompt w) = Inr m"
    and "generateObject_phrases c i (phrases_prompt b numPhrases w) = Inr phrases"
    and "inquirer_prompt c i (checkbox_message w) phrases = Inr []"
  shows "fst (loop_body b c numPhrases i w) = Inr [] \<and>
         fst (word_loop b c numPhrases i (w # ws) selectedPhrases)
           = fst (word_loop b c numPhrases (Suc i) ws selectedPhrases) \<and>
         snd (word_loop b c numPhrases i (w # ws) selectedPhrases)
           = snd (loop_body b c numPhrases i w) @ snd (word_loop b c numPhrases (Suc i) ws selectedPhrases)"
proof -
  from assms have f: "fst (loop_body b c numPhrases i w) = Inr []"
    by (simp add: loop_body_def getWordMeaning_def generatePhrases_def Let_def)
  then have b: "loop_body b c numPhrases i w = (Inr [], snd (loop_body b c numPhrases i w))"
    by (simp add: prod_eq_iff)
  show ?thesis
    using word_loop_Cons_Inr [OF b, of ws selectedPhrases] f by (simp del: word_loop.simps)
qed

theorem empty_selection_pushes_nothing_witness:
  "inquirer_prompt steady 1 (checkbox_message ''jump'') [''p1'', ''p2'', ''p3''] = Inr [] \<and>
   fst (loop_body tabled steady (Num 2) 1 ''jump'') = Inr [] \<and>
   fst (word_loop tabled steady (Num 2) 1 [''jump'', ''hop'']
          [\<lparr>phrase = ''p1'', pending.meaning = ''m'', pending.word = ''run''\<rparr>])
     = fst (word_loop tabled steady (Num 2) 2 [''hop'']
              [\<lparr>phrase = ''p1'', pending.meaning = ''m'', pending.word = ''run''\<rparr>])"
proof -
  have m: "generateObject_meaning steady 1 (meaning_prompt ''jump'') = Inr ''m''"
    by (simp add: steady_def)
  have p: "generateObject_phrases steady 1 (phrases_prompt tabled (Num 2) ''jump'')
             = Inr [''p1'', ''p2'', ''p3'']"
    by (simp add: steady_def)
  have s: "inquirer_prompt steady 1 (checkbox_message ''jump'') [''p1'', ''p2'', ''p3''] = Inr []"
    by (simp add: steady_def)
  show ?thesis
    using empty_selection_pushes_nothing [OF m p s, of "[''hop'']"
        "[\<lparr>phrase = ''p1'', pending.meaning = ''m'', pending.word = ''run''\<rparr>]"] s
    by (simp add: numeral_2_eq_2)
qed

subsection \<open>C7: the phrases returned and the count asked for\<close>

text \<open>
  C7, as stated: for every word and every count, \<^verbatim>\<open>generatePhrases(word, count)\<close> returns a
  list of at most \<open>count\<close> strings, or fails. It does not hold: the schema of the request
  accepts a list of any length, and the function hands back the list it received. Here the
  count is 1 and three phrases come back.
\<close>

theorem generatePhrases_exceeds_count:
  "\<not> at_most (Num 1) (snd (generatePhrases tabled steady 0 ''run'' (Num 1)))"
  by (simp add: generatePhrases_def steady_def Let_def)

text \<open>
  C7, amended: \<^verbatim>\<open>generatePhrases(word, count)\<close> issues one request, whose prompt carries the
  text of the count and the word, and returns the answer to it as it is: the list of
  strings of the response in order, whatever its length, or the error. So its result stays
  within the count exactly when the response does, and there is no list, however long,
  that it cannot return.
\<close>

theorem generatePhrases_returns_response:
  "fst (generatePhrases b c i w numPhrases)
     = GenerateObject PhrasesSchema
         (''Generate '' @ ToString b numPhrases @
          '' natural, contextually relevant phrases that native English speakers might use in daily life, incorporating the word ''
          @ DQ @ w @ DQ @ '' in a meaningful way.'') \<and>
   snd (generatePhrases b c i w numPhrases)
     = generateObject_phrases c i (phrases_prompt b numPhrases w) \<and>
   at_most numPhrases (snd (generatePhrases b c i w numPhrases))
     = at_most numPhrases
         (generateObject_phrases c i (phrases_prompt b numPhrases w)) \<and>
   (\<exists>c'. snd (generatePhrases b c' i w numPhrases) = Inr ps \<and>
         fst (generatePhrases b c' i w numPhrases) = fst (generatePhrases b c i w numPhrases))"
proof -
  let ?c' = "c\<lparr>generateObject_phrases := \<lambda>i p. Inr ps\<rparr>"
  have "snd (generatePhrases b ?c' i w numPhrases) = Inr ps \<and>
        fst (generatePhrases b ?c' i w numPhrases) = fst (generatePhrases b c i w numPhrases)"
    by (simp add: generatePhrases_def Let_def)
  then have "\<exists>c'. snd (generatePhrases b c' i w numPhrases) = Inr ps \<and>
         fst (generatePhrases b c' i w numPhrases) = fst (generatePhrases b c i w numPhrases)"
    by (rule exI)
  then show ?thesis
    by (simp add: generatePhrases_def phrases_prompt_def Let_def)
qed

theorem generatePhrases_returns_response_witness:
  "snd (generatePhrases tabled steady 0 ''run'' (Num 2)) = Inr [''p1'', ''p2'', ''p3''] \<and>
   at_most (Num 2) (snd (generatePhrases tabled steady 0 ''run'' (Num 2))) = False"
  using generatePhrases_returns_response [of tabled steady 0 "''run''" "Num 2" "[]"]
  by (simp add: steady_def)

subsection \<open>C8: the list the loop builds\<close>

text \<open>
  C8: when the loop completes, \<^verbatim>\<open>selectedPhrases\<close> holds, word after word, one entry for
  each phrase chosen for the word, with the word and the meaning returned for it; so its
  length is the sum of the numbers of phrases chosen. The list starts empty and only the
  loop pushes onto it. No translation request is made during the loop: in the events of
  \<open>main\<close>, those of the loop come first, and what follows holds no call of the loop and
  holds the translation requests, one for each entry of the final list, in order. When the
  loop fails, \<open>main\<close> ends there. The loop completes whenever its calls are answered.
\<close>

theorem list_built_by_the_loop:
  "(case word_loop b c n 0 ws [] of
      (Inl e, evs) \<Rightarrow>
        main b c ws n f order = (Rejected e, evs) \<and> requests TranslationSchema evs = []
    | (Inr sel, evs) \<Rightarrow>
        sel = concat (map (\<lambda>iw. map (\<lambda>ph. \<lparr>phrase = ph,
                                              pending.meaning = meaning_at c (fst iw) (snd iw),
                                              pending.word = snd iw\<rparr>)
                                   (selection_at b c n (fst iw) (snd iw)))
                        (enumerate 0 ws)) \<and>
        length sel = sum_list (map (\<lambda>iw. length (selection_at b c n (fst iw) (snd iw)))
                                 (enumerate 0 ws)) \<and>
        requests TranslationSchema evs = [] \<and>
        take (length evs) (snd (main b c ws n f order)) = evs \<and>
        filter loop_call (drop (length evs) (snd (main b c ws n f order))) = [] \<and>
        requests TranslationSchema (snd (main b c ws n f order))
          = map (\<lambda>p. translation_prompt (phrase p)) sel) \<and>
   (list_all (answered b c n) (enumerate 0 ws) \<longrightarrow> \<not> isl (fst (word_loop b c n 0 ws [])))"
proof (intro conjI impI)
  show "case word_loop b c n 0 ws [] of
      (Inl e, evs) \<Rightarrow>
        main b c ws n f order = (Rejected e, evs) \<and> requests TranslationSchema evs = []
    | (Inr sel, evs) \<Rightarrow>
        sel = concat (map (\<lambda>iw. map (\<lambda>ph. \<lparr>phrase = ph,
                                              pending.meaning = meaning_at c (fst iw) (snd iw),
                                              pending.word = snd iw\<rparr>)
                                   (selection_at b c n (fst iw) (snd iw)))
                        (enumerate 0 ws)) \<and>
        length sel = sum_list (map (\<lambda>iw. length (selection_at b c n (fst iw) (snd iw)))
                                 (enumerate 0 ws)) \<and>
        requests TranslationSchema evs = [] \<and>
        take (length evs) (snd (main b c ws n f order)) = evs \<and>
        filter loop_call (drop (length evs) (snd (main b c ws n f order))) = [] \<and>
        requests TranslationSchema (snd (main b c ws n f order))
          = map (\<lambda>p. translation_prompt (phrase p)) sel"
  proof (cases "word_loop b c n 0 ws []")
    case (Pair r evs)
    have q: "requests TranslationSchema evs = []"
      using word_loop_quiet [of b c n 0 ws "[]"] Pair by simp
    show ?thesis
    proof (cases r)
      case (Inl e)
      with Pair q show ?thesis by (simp add: main_loop_failed)
    next
      case (Inr sel)
      have l: "word_loop b c n 0 ws [] = (Inr sel, evs)" using Pair Inr by simp
      have entries: "entries_for b c n = (\<lambda>iw. map (\<lambda>ph. \<lparr>phrase = ph,
                                              pending.meaning = meaning_at c (fst iw) (snd iw),
                                              pending.word = snd iw\<rparr>)
                                   (selection_at b c n (fst iw) (snd iw)))"
        by (rule ext) (simp add: entries_for_def case_prod_beta)
      have sel: "sel = concat (map (entries_for b c n) (enumerate 0 ws))"
        using word_loop_Inr [OF l] by simp
      have len: "length sel = sum_list (map (\<lambda>iw. length (selection_at b c n (fst iw) (snd iw)))
                                 (enumerate 0 ws))"
        unfolding sel by (simp add: length_concat entries comp_def)
      obtain rest where rest: "snd (main b c ws n f order)
          = evs @ map (\<lambda>p. GenerateObject TranslationSchema (translation_prompt (phrase p))) sel
            @ rest"
        "requests TranslationSchema rest = []" "filter loop_call rest = []"
        using main_after_loop [OF l] by blast
      show ?thesis
        using sel len q rest
        by (simp add: l entries requests_append requests_translation_calls
            translation_calls_quiet)
    qed
  qed
next
  assume "list_all (answered b c n) (enumerate 0 ws)"
  then show "\<not> isl (fst (word_loop b c n 0 ws []))"
    using word_loop_answered [of b c n 0 ws "[]"] by auto
qed

theorem list_built_by_the_loop_witness:
  "list_all (answered tabled steady (Num 2)) (enumerate 0 [''run'', ''jump'']) \<and>
   fst (word_loop tabled steady (Num 2) 0 [''run'', ''jump''] [])
     = Inr [\<lparr>phrase = ''p1'', pending.meaning = ''m'', pending.word = ''run''\<rparr>] \<and>
   length (selection_at tabled steady (Num 2) 0 ''run'')
     + length (selection_at tabled steady (Num 2) 1 ''jump'') = 1 \<and>
   requests TranslationSchema (snd (main tabled steady [''run'', ''jump''] (Num 2) True [0]))
     = [translation_prompt ''p1'']"
proof -
  let ?sel = "[\<lparr>phrase = ''p1'', pending.meaning = ''m'', pending.word = ''run''\<rparr>]"
  have a: "list_all (answered tabled steady (Num 2)) (enumerate 0 [''run'', ''jump''])"
    by (simp add: answered_def steady_def)
  have lf: "fst (word_loop tabled steady (Num 2) 0 [''run'', ''jump''] []) = Inr ?sel"
    by (simp add: loop_body_def getWordMeaning_def generatePhrases_def steady_def Let_def)
  then have l: "word_loop tabled steady (Num 2) 0 [''run'', ''jump''] []
                  = (Inr ?sel, snd (word_loop tabled steady (Num 2) 0 [''run'', ''jump''] []))"
    by (simp add: prod_eq_iff del: word_loop.simps)
  have k: "(case word_loop tabled steady (Num 2) 0 [''run'', ''jump''] [] of
              (Inl e, evs) \<Rightarrow> P e evs | (Inr sel, evs) \<Rightarrow> Q sel evs)
           = Q ?sel (snd (word_loop tabled steady (Num 2) 0 [''run'', ''jump''] []))" for P Q
    by (subst l) simp
  note t = list_built_by_the_loop
    [where b = tabled and c = steady and n = "Num 2" and ws = "[''run'', ''jump'']" and f = True
       and order = "[0]", unfolded k]
  from t have "requests TranslationSchema (snd (main tabled steady [''run'', ''jump''] (Num 2) True [0]))
      = map (\<lambda>p. translation_prompt (phrase p)) ?sel" by blast
  moreover from t have "length ?sel
      = sum_list (map (\<lambda>iw. length (selection_at tabled steady (Num 2) (fst iw) (snd iw)))
                    (enumerate 0 [''run'', ''jump'']))" by blast
  ultimately show ?thesis
    using a lf by (simp del: word_loop.simps)
qed

subsection \<open>C9: an empty segment of the \<^verbatim>\<open>-w\<close> argument\<close>

text \<open>
  C9: \<^verbatim>\<open>split(",")\<close> keeps the empty segments (a text with \<open>n\<close> commas gives \<open>n + 1\<close> words,
  and joining them with commas gives the text back). So \<^verbatim>\<open>-w a,,b\<close> gives the three words
  \<open>a\<close>, the empty string and \<open>b\<close>; with the credential set and a valid count the checks
  pass; and the loop treats the empty word as the others: when the calls are answered, the
  calls of the run are the meaning request, the phrases request and the selection for
  \<open>a\<close>, then those for the empty word, then those for \<open>b\<close>.
\<close>

theorem empty_word_is_processed:
  assumes "args_w a = Some ''a,,b''" and "truthy (env ''DEEPSEEK_API_KEY'')"
    and "\<not> Number_isNaN (numPhrases_of b a)" and "\<not> le_zero (numPhrases_of b a)"
  shows "words a = [''a'', [], ''b''] \<and>
         \<not> is_config_failure (program b env a c order) \<and>
         (list_all (answered b c (numPhrases_of b a)) (enumerate 0 (words a)) \<longrightarrow>
            filter loop_call (trace (program b env a c order))
              = [GenerateObject MeaningSchema (meaning_prompt ''a''),
                 GenerateObject PhrasesSchema (phrases_prompt b (numPhrases_of b a) ''a''),
                 Prompt (checkbox_message ''a'') (phrases_at b c (numPhrases_of b a) 0 ''a''),
                 GenerateObject MeaningSchema (meaning_prompt []),
                 GenerateObject PhrasesSchema (phrases_prompt b (numPhrases_of b a) []),
                 Prompt (checkbox_message []) (phrases_at b c (numPhrases_of b a) 1 []),
                 GenerateObject MeaningSchema (meaning_prompt ''b''),
                 GenerateObject PhrasesSchema (phrases_prompt b (numPhrases_of b a) ''b''),
                 Prompt (checkbox_message ''b'') (phrases_at b c (numPhrases_of b a) 2 ''b'')]) \<and>
         (\<forall>s. length (split CHR '','' s) = Suc (count_list s CHR '','') \<and>
              join '','' (split CHR '','' s) = s)"
proof -
  have w: "words a = [''a'', [], ''b'']"
    using assms(1) by (simp add: words_def split_def)
  have v: "words a \<noteq> []" "\<not> Number_isNaN (numPhrases_of b a)" "\<not> le_zero (numPhrases_of b a)"
    using w assms(3,4) by simp_all
  have first: "take 1 (trace (program b env a c order))
      = [GenerateObject MeaningSchema (meaning_prompt (hd (words a)))]"
    using assms(2) v by (rule program_first)
  then have ok: "\<not> is_config_failure (program b env a c order)"
    by (cases "trace (program b env a c order)") (auto split: list.splits event.splits)
  obtain rest where rest:
    "trace (program b env a c order) = snd (word_loop b c (numPhrases_of b a) 0 (words a) []) @ rest"
    "filter loop_call rest = []"
    using program_trace [of env a, OF assms(2) v] assms(3) by auto
  have calls: "filter loop_call (trace (program b env a c order))
      = calls_for b c (numPhrases_of b a) (0, ''a'') @ calls_for b c (numPhrases_of b a) (1, []) @ calls_for b c (numPhrases_of b a) (2, ''b'')"
    if "list_all (answered b c (numPhrases_of b a)) (enumerate 0 (words a))"
  proof -
    from that obtain sel evs where l: "word_loop b c (numPhrases_of b a) 0 (words a) [] = (Inr sel, evs)"
      using word_loop_answered by blast
    from word_loop_Inr [OF l] rest l show ?thesis
      by (simp add: w numeral_2_eq_2)
  qed
  have sp: "length (split CHR '','' s) = Suc (count_list s CHR '','') \<and>
            join '','' (split CHR '','' s) = s" for s
    using length_split_from [of "CHR '',''" "[]" s] join_split_from [of "CHR '',''" "[]" s]
    by (simp add: split_def)
  show ?thesis
    using w ok calls sp by (simp add: calls_for_def)
qed

theorem empty_word_is_processed_witness:
  "words args_gap = [''a'', [], ''b''] \<and>
   \<not> is_config_failure (program tabled env_with_key args_gap steady [0, 1]) \<and>
   list_all (answered tabled steady (Num 5)) (enumerate 0 (words args_gap)) \<and>
   requests MeaningSchema
     (filter loop_call (trace (program tabled env_with_key args_gap steady [0, 1])))
     = [meaning_prompt ''a'', meaning_prompt [], meaning_prompt ''b'']"
proof -
  have w: "args_w args_gap = Some ''a,,b''" by (simp add: args_gap_def)
  have n: "numPhrases_of tabled args_gap = Num 5" by (simp add: args_gap_def numPhrases_of_def)
  have v: "\<not> Number_isNaN (numPhrases_of tabled args_gap)"
    "\<not> le_zero (numPhrases_of tabled args_gap)"
    by (simp_all add: n)
  have e: "truthy (env_with_key ''DEEPSEEK_API_KEY'')" by (simp add: env_with_key_def)
  note t = empty_word_is_processed
    [where b = tabled and env = env_with_key and a = args_gap and c = steady
       and order = "[0, 1]", OF w e v]
  have ws: "words args_gap = [''a'', [], ''b'']" using t by simp
  have a: "list_all (answered tabled steady (Num 5)) (enumerate 0 (words args_gap))"
    by (simp add: ws answered_def steady_def)
  show ?thesis using t a by (simp add: n)
qed

subsection \<open>C10: two runs on the same input\<close>

text \<open>
  C10: a run is a function of the arguments, the environment, the answers of the
  collaborators and the order in which the translation requests complete. Two runs on the
  same arguments, environment and answers, in which the same translation requests complete
  in whatever two orders, print the same on standard output, write the same file with the
  same content, and end with the same exit status.
\<close>

theorem same_output_whatever_the_order:
  assumes "set order = set order'"
  shows "stdout (trace (program b env a c order)) = stdout (trace (program b env a c order')) \<and>
         files_written (trace (program b env a c order))
           = files_written (trace (program b env a c order')) \<and>
         exit_code (program b env a c order) = exit_code (program b env a c order')"
proof -
  from main_same_completed [OF assms, of b c "words a" "numPhrases_of b a" "flashcards_of a"]
  show ?thesis
  proof
    assume "main b c (words a) (numPhrases_of b a) (flashcards_of a) order
              = main b c (words a) (numPhrases_of b a) (flashcards_of a) order'"
    then have "program b env a c order = program b env a c order'"
      by (simp add: program_def)
    then show ?thesis by simp
  next
    assume "\<exists>e e' evs. main b c (words a) (numPhrases_of b a) (flashcards_of a) order = (Rejected e, evs) \<and>
              main b c (words a) (numPhrases_of b a) (flashcards_of a) order' = (Rejected e', evs)"
    then obtain e e' evs where
      "main b c (words a) (numPhrases_of b a) (flashcards_of a) order = (Rejected e, evs)"
      "main b c (words a) (numPhrases_of b a) (flashcards_of a) order' = (Rejected e', evs)"
      by blast
    then show ?thesis
      by (simp add: program_def stdout_append files_written_append)
  qed
qed

theorem same_output_whatever_the_order_witness:
  "set [0, 1 :: nat] = set [1, 0] \<and>
   stdout (trace (program tabled env_with_key args_run_jump eager [0, 1]))
     = stdout (trace (program tabled env_with_key args_run_jump eager [1, 0])) \<and>
   files_written (trace (program tabled env_with_key args_run_jump eager [0, 1]))
     = files_written (trace (program tabled env_with_key args_run_jump eager [1, 0])) \<and>
   exit_code (program tabled env_with_key args_run_jump eager [1, 0]) = Some 0"
proof -
  have s: "set [0, 1 :: nat] = set [1, 0]" by auto
  have x: "exit_code (program tabled env_with_key args_run_jump eager [1, 0]) = Some 0"
    by (simp add: program_def model_def env_with_key_def args_run_jump_def words_def split_def
        numPhrases_of_def tabled_def flashcards_of_def main_def loop_body_def
        getWordMeaning_def generatePhrases_def translations_of_def translate_entries_def
        translate_entry_def translatePhrase_def Promise_all_def eager_def steady_def Let_def)
  show ?thesis
    using same_output_whatever_the_order [OF s, of tabled env_with_key args_run_jump eager] s x
    by simp
qed

end
